theory Spec2Isabelle
  imports Main "HOL-Library.Word" "HOL-Library.Sublist"
begin

section \<open>C strings, result codes and the bounded output buffer\<close>

text \<open>
  A C string is modelled by the list of its bytes before the terminating NUL; a
  character array (memory that a C string is read from) is the list of all its bytes,
  and \<open>c_str\<close> reads the string that starts at its first byte.  A pointer that may be
  NULL is an \<open>option\<close>.
\<close>

abbreviation NUL :: char where "NUL \<equiv> CHR 0x00"
abbreviation ESC :: char where "ESC \<equiv> CHR 0x1B"
abbreviation BEL :: char where "BEL \<equiv> CHR 0x07"
abbreviation LF :: char where "LF \<equiv> CHR 0x0A"
abbreviation CR :: char where "CR \<equiv> CHR 0x0D"

definition c_str :: "char list \<Rightarrow> string" where
  "c_str mem = takeWhile (\<lambda>c. c \<noteq> NUL) mem"

definition byte :: "char \<Rightarrow> nat" where
  "byte c = of_char c"

datatype lle_result =
    LLE_SUCCESS
  | LLE_ERROR_NULL_POINTER
  | LLE_ERROR_INVALID_PARAMETER
  | LLE_ERROR_INVALID_STATE
  | LLE_ERROR_OUT_OF_MEMORY
  | LLE_ERROR_RESOURCE_EXHAUSTED
  | LLE_ERROR_SYSTEM_CALL
  | LLE_ERROR_NOT_INITIALIZED
  | LLE_ERROR_FEATURE_NOT_AVAILABLE

text \<open>
  \<open>expand_buf_t\<close> of prompt_expansion.c: the caller's array \<open>buf\<close>, the size the
  caller announced and the write position.
\<close>

record expand_buf =
  eb_buf :: "char list"
  eb_size :: nat
  eb_pos :: nat

definition buf_init :: "char list \<Rightarrow> nat \<Rightarrow> expand_buf" where
  "buf_init mem sz =
     \<lparr>eb_buf = (if sz > 0 then mem[0 := NUL] else mem), eb_size = sz, eb_pos = 0\<rparr>"

definition buf_append_char :: "expand_buf \<Rightarrow> char \<Rightarrow> expand_buf" where
  "buf_append_char b c =
     (if eb_pos b + 1 < eb_size b
      then b\<lparr>eb_buf := (eb_buf b)[eb_pos b := c, eb_pos b + 1 := NUL],
             eb_pos := eb_pos b + 1\<rparr>
      else b)"

text \<open>The copying loop of \<open>buf_append_str\<close>; it stops at the NUL of \<open>s\<close> or when full.\<close>

fun buf_append_str_loop :: "expand_buf \<Rightarrow> string \<Rightarrow> expand_buf" where
  "buf_append_str_loop b [] = b"
| "buf_append_str_loop b (c # s) =
     (if c \<noteq> NUL \<and> eb_pos b + 1 < eb_size b
      then buf_append_str_loop
             (b\<lparr>eb_buf := (eb_buf b)[eb_pos b := c], eb_pos := eb_pos b + 1\<rparr>) s
      else b)"

text \<open>
  \<open>buf_append_str\<close>.  Its guard against a NULL \<open>s\<close> is not modelled: every call site
  passes an array or a string literal.
\<close>

definition buf_append_str :: "expand_buf \<Rightarrow> string \<Rightarrow> expand_buf" where
  "buf_append_str b s =
     (let b' = buf_append_str_loop b s in
      if eb_size b' > 0
      then b'\<lparr>eb_buf := (eb_buf b')
                 [(if eb_pos b' < eb_size b' then eb_pos b' else eb_size b' - 1) := NUL]\<rparr>
      else b')"

subsection \<open>Decimal output of \<open>snprintf\<close>\<close>

definition digit_char :: "nat \<Rightarrow> char" where
  "digit_char d = char_of (48 + d)"

function dec_nat :: "nat \<Rightarrow> string" where
  "dec_nat n = (if n < 10 then [digit_char n] else dec_nat (n div 10) @ [digit_char (n mod 10)])"
  by pat_completeness auto
termination
  by (relation "measure id") auto

declare dec_nat.simps [simp del]

text \<open>\<open>%d\<close> and \<open>%ld\<close>: a minus sign for negative values, then the digits.\<close>

definition printf_d :: "int \<Rightarrow> string" where
  "printf_d i = (if i < 0 then CHR ''-'' # dec_nat (nat (- i)) else dec_nat (nat i))"

text \<open>\<open>snprintf(dst, n, ...)\<close> keeps at most \<open>n - 1\<close> bytes of the formatted text.\<close>

definition snprintf :: "nat \<Rightarrow> string \<Rightarrow> string" where
  "snprintf n s = take (n - 1) s"

definition buf_append_int :: "expand_buf \<Rightarrow> int \<Rightarrow> expand_buf" where
  "buf_append_int b val = buf_append_str b (snprintf 32 (printf_d val))"

section \<open>The process environment read by the expansion engine\<close>

text \<open>
  The POSIX calls of prompt_expansion.c read state that is outside the program.  Their
  results are the fields of \<open>sys_env\<close>; a call that can fail returns an \<open>option\<close>.
  \<open>strftime_now max fmt\<close> is the C string that \<open>strftime(buf, max, fmt, &tm)\<close> leaves
  in \<open>buf\<close> for the local time of the call.  The constants of version.h, which is not
  part of the sources at hand, are fields as well, and so is the signedness of plain
  \<open>char\<close>, which the C standard leaves to the platform.
\<close>

record passwd =
  pw_name :: string
  pw_dir :: "string option"

record sys_env =
  getuid :: nat
  geteuid :: nat
  getpwuid :: "nat \<Rightarrow> passwd option"
  gethostname :: "nat \<Rightarrow> string option"
  getcwd :: "nat \<Rightarrow> string option"
  ttyname :: "string option"
  strftime_now :: "nat \<Rightarrow> string \<Rightarrow> string"
  char_is_signed :: bool
  LUSH_NAME :: string
  LUSH_VERSION_MAJOR :: int
  LUSH_VERSION_MINOR :: int
  LUSH_VERSION_STRING :: string

definition PATH_MAX :: nat where
  "PATH_MAX = 4096"

definition EXPAND_BUF_SIZE :: nat where
  "EXPAND_BUF_SIZE = 4096"

subsection \<open>\<open>string.h\<close> functions used by the helpers\<close>

text \<open>\<open>strrchr s c\<close>: the suffix of \<open>s\<close> that starts at the last \<open>c\<close>, if there is one.\<close>

fun strrchr :: "string \<Rightarrow> char \<Rightarrow> string option" where
  "strrchr [] c = None"
| "strrchr (x # xs) c =
     (case strrchr xs c of
        Some r \<Rightarrow> Some r
      | None \<Rightarrow> if x = c then Some (x # xs) else None)"

text \<open>\<open>strstr s needle\<close>: the suffix of \<open>s\<close> that starts at the first occurrence.\<close>

fun strstr :: "string \<Rightarrow> string \<Rightarrow> string option" where
  "strstr [] needle = (if needle = [] then Some [] else None)"
| "strstr (x # xs) needle =
     (if prefix needle (x # xs) then Some (x # xs) else strstr xs needle)"

subsection \<open>Cached system values\<close>

definition get_username :: "sys_env \<Rightarrow> string" where
  "get_username env =
     (case getpwuid env (getuid env) of Some pw \<Rightarrow> pw_name pw | None \<Rightarrow> [])"

definition get_hostname_full :: "sys_env \<Rightarrow> nat \<Rightarrow> string" where
  "get_hostname_full env sz =
     (case gethostname env sz of None \<Rightarrow> [] | Some h \<Rightarrow> take (sz - 1) h)"

definition get_hostname_short :: "sys_env \<Rightarrow> nat \<Rightarrow> string" where
  "get_hostname_short env sz =
     (case gethostname env sz of
        None \<Rightarrow> []
      | Some h \<Rightarrow> takeWhile (\<lambda>c. c \<noteq> CHR ''.'') (take (sz - 1) h))"

definition get_cwd_full :: "sys_env \<Rightarrow> nat \<Rightarrow> string" where
  "get_cwd_full env sz = (case getcwd env sz of None \<Rightarrow> [] | Some d \<Rightarrow> d)"

text \<open>
  \<open>get_cwd_tilde\<close>: \<open>strncmp(cwd, pw_dir, hlen) == 0\<close> holds exactly when \<open>pw_dir\<close> is
  a prefix of \<open>cwd\<close>, and \<open>cwd[hlen]\<close> is then the first byte after the prefix, NUL
  at the end of the string.
\<close>

definition get_cwd_tilde :: "sys_env \<Rightarrow> nat \<Rightarrow> string" where
  "get_cwd_tilde env sz =
     (let cwd = get_cwd_full env PATH_MAX;
          home = (case getpwuid env (getuid env) of
                    Some pw \<Rightarrow> pw_dir pw
                  | None \<Rightarrow> None)
      in case home of
           Some dir \<Rightarrow>
             if take (length dir) cwd = dir \<and>
                (case drop (length dir) cwd of [] \<Rightarrow> True | c # _ \<Rightarrow> c = CHR ''/'')
             then snprintf sz (CHR ''~'' # drop (length dir) cwd)
             else snprintf sz cwd
         | None \<Rightarrow> snprintf sz cwd)"

definition get_cwd_basename :: "sys_env \<Rightarrow> nat \<Rightarrow> string" where
  "get_cwd_basename env sz =
     (let tilde = get_cwd_tilde env PATH_MAX
      in if tilde = ''~'' then snprintf sz ''~''
         else if tilde = ''/'' then snprintf sz ''/''
         else case strrchr tilde (CHR ''/'') of
                Some lst \<Rightarrow> snprintf sz (tl lst)
              | None \<Rightarrow> snprintf sz tilde)"

definition get_tty_name :: "sys_env \<Rightarrow> string" where
  "get_tty_name env =
     (case ttyname env of
        None \<Rightarrow> ''?''
      | Some tty \<Rightarrow> (case strstr tty ''/dev/'' of Some dev \<Rightarrow> drop 5 dev | None \<Rightarrow> tty))"

section \<open>Colour specifications: \<open>emit_color\<close>\<close>

definition isspace :: "char \<Rightarrow> bool" where
  "isspace c = (c = CHR '' '' \<or> (9 \<le> byte c \<and> byte c \<le> 13))"

definition isdigit :: "char \<Rightarrow> bool" where
  "isdigit c = (48 \<le> byte c \<and> byte c \<le> 57)"

text \<open>The value of a hexadecimal digit; \<open>None\<close> for any other byte.\<close>

definition hex_val :: "char \<Rightarrow> nat option" where
  "hex_val c =
     (if 48 \<le> byte c \<and> byte c \<le> 57 then Some (byte c - 48)
      else if 97 \<le> byte c \<and> byte c \<le> 102 then Some (byte c - 97 + 10)
      else if 65 \<le> byte c \<and> byte c \<le> 70 then Some (byte c - 65 + 10)
      else None)"

text \<open>
  The digit loop of a \<open>%x\<close> conversion with \<open>w\<close> bytes of field width left: the number
  of digits read, the value so far and the rest of the input.
\<close>

fun scan_hex_digits :: "nat \<Rightarrow> nat \<Rightarrow> nat \<Rightarrow> string \<Rightarrow> nat \<times> nat \<times> string" where
  "scan_hex_digits w n v [] = (n, v, [])"
| "scan_hex_digits w n v (c # s) =
     (case hex_val c of
        Some d \<Rightarrow> if w > 0 then scan_hex_digits (w - 1) (Suc n) (v * 16 + d) s
                  else (n, v, c # s)
      | None \<Rightarrow> (n, v, c # s))"

text \<open>
  One \<open>%<w>x\<close> conversion of \<open>sscanf\<close> into an \<open>unsigned int\<close>: white space is skipped,
  a sign and a \<open>0x\<close> prefix count towards the field width, at least one digit is
  required, and a minus sign negates modulo \<open>2 ^ 32\<close>.  \<open>None\<close> is a failed conversion.
  A field that holds only \<open>0x\<close> is read as 0, as the GNU C library does; no theorem
  below depends on this corner.
\<close>

definition scanf_x :: "nat \<Rightarrow> string \<Rightarrow> (nat \<times> string) option" where
  "scanf_x w s =
     (let s1 = dropWhile isspace s;
          (neg, w1, s2) =
            (case s1 of
               c # r \<Rightarrow> if c = CHR ''-'' then (True, w - 1, r)
                         else if c = CHR ''+'' then (False, w - 1, r)
                         else (False, w, s1)
             | [] \<Rightarrow> (False, w, s1));
          (n0, w2, s3) =
            (case s2 of
               c # r \<Rightarrow>
                 if w1 \<noteq> 0 \<and> c = CHR ''0''
                 then (case r of
                         x # r' \<Rightarrow> if w1 - 1 \<noteq> 0 \<and> (x = CHR ''x'' \<or> x = CHR ''X'')
                                    then (Suc 0, w1 - 2, r')
                                    else (Suc 0, w1 - 1, r)
                       | [] \<Rightarrow> (Suc 0, w1 - 1, r))
                 else (0, w1, s2)
             | [] \<Rightarrow> (0, w1, s2));
          (n, v, rest) = scan_hex_digits w2 n0 0 s3
      in if s1 = [] \<or> n = 0 then None
         else Some ((if neg then (2 ^ 32 - v mod 2 ^ 32) mod 2 ^ 32 else v mod 2 ^ 32), rest))"

text \<open>\<open>sscanf(s, "%2x%2x%2x", &r, &g, &bl) == 3\<close>, with the three values.\<close>

definition sscanf_2x2x2x :: "string \<Rightarrow> (nat \<times> nat \<times> nat) option" where
  "sscanf_2x2x2x s =
     (case scanf_x 2 s of
        None \<Rightarrow> None
      | Some (r, s1) \<Rightarrow>
          (case scanf_x 2 s1 of
             None \<Rightarrow> None
           | Some (g, s2) \<Rightarrow>
               (case scanf_x 2 s2 of
                  None \<Rightarrow> None
                | Some (bl, s3) \<Rightarrow> Some (r, g, bl))))"

text \<open>
  \<open>strtol(s, &end, 10)\<close>: the value and \<open>end\<close>.  Without a digit nothing is converted
  and \<open>end\<close> is \<open>s\<close> itself; a value outside \<open>long\<close> is clamped.
\<close>

definition digits_val :: "string \<Rightarrow> nat" where
  "digits_val ds = foldl (\<lambda>v c. v * 10 + (byte c - 48)) 0 ds"

definition strtol10 :: "string \<Rightarrow> int \<times> string" where
  "strtol10 s =
     (let s1 = dropWhile isspace s;
          (neg, s2) =
            (case s1 of
               c # r \<Rightarrow> if c = CHR ''-'' then (True, r)
                         else if c = CHR ''+'' then (False, r)
                         else (False, s1)
             | [] \<Rightarrow> (False, s1));
          ds = takeWhile isdigit s2;
          v = (if neg then - int (digits_val ds) else int (digits_val ds))
      in if ds = [] then (0, s)
         else (max (- (2 ^ 63)) (min (2 ^ 63 - 1) v), dropWhile isdigit s2))"

definition named :: "(string \<times> int) list" where
  "named =
     [(''black'', 0), (''red'', 1), (''green'', 2), (''yellow'', 3),
      (''blue'', 4), (''magenta'', 5), (''cyan'', 6), (''white'', 7),
      (''default'', 9)]"

text \<open>
  Arithmetic in \<open>int\<close>.  C leaves signed overflow undefined; the model wraps at 32
  bits, as the compiled code does.
\<close>

definition int32 :: "int \<Rightarrow> int" where
  "int32 i = (i + 2 ^ 31) mod 2 ^ 32 - 2 ^ 31"

text \<open>
  The component of the 6x6x6 colour cube for a channel value, an \<open>unsigned int\<close>; the
  quotient is below \<open>2 ^ 31\<close> and keeps its value as an \<open>int\<close>.
\<close>

definition cube_index :: "nat \<Rightarrow> int" where
  "cube_index c = (if c > 47 then int ((c - 35) div 40) else 0)"

text \<open>
  The three parsers of \<open>emit_color\<close>, in the order of the source.

  Hexadecimal: \<open>spec[0] == '#' && strlen(spec) == 7\<close> and the three conversions succeed.
\<close>

definition hex_color :: "string \<Rightarrow> (nat \<times> nat \<times> nat) option" where
  "hex_color spec =
     (case spec of
        c # hex \<Rightarrow> if c = CHR ''#'' \<and> length spec = 7 then sscanf_2x2x2x hex else None
      | [] \<Rightarrow> None)"

text \<open>Decimal: \<open>*end == '\0' && end != spec && num >= 0 && num <= 255\<close>.\<close>

definition numeric_color :: "string \<Rightarrow> int option" where
  "numeric_color spec =
     (let (num, endp) = strtol10 spec
      in if endp = [] \<and> endp \<noteq> spec \<and> num \<ge> 0 \<and> num \<le> 255 then Some num else None)"

text \<open>
  \<open>emit_color\<close>.  A hexadecimal colour that parses returns even when nothing is
  written (depth 1); the name table is searched by \<open>strcmp\<close> from its first row.
\<close>

definition emit_color :: "expand_buf \<Rightarrow> string \<Rightarrow> int \<Rightarrow> bool \<Rightarrow> expand_buf" where
  "emit_color b spec color_depth fg =
     (if color_depth = 0 then b
      else
        case hex_color spec of
          Some (r, g, bl) \<Rightarrow>
            if color_depth \<ge> 3
            then buf_append_str b
                   (snprintf 32 (ESC # ''['' @ printf_d (if fg then 38 else 48) @ '';2;'' @
                                 dec_nat r @ '';'' @ dec_nat g @ '';'' @ dec_nat bl @ ''m''))
            else if color_depth \<ge> 2
            then (let ri = cube_index r; gi = cube_index g; bi = cube_index bl;
                      idx = int32 (16 + 36 * ri + 6 * gi + bi)
                  in buf_append_str b
                       (snprintf 24 (ESC # ''['' @ printf_d (if fg then 38 else 48) @ '';5;'' @
                                     printf_d idx @ ''m'')))
            else b
        | None \<Rightarrow>
            (case numeric_color spec of
               Some num \<Rightarrow>
                 if color_depth \<ge> 2
                 then buf_append_str b
                        (snprintf 24 (ESC # ''['' @ printf_d (if fg then 38 else 48) @
                                      '';5;'' @ printf_d num @ ''m''))
                 else (let code = num mod 8
                       in buf_append_str b
                            (snprintf 16 (ESC # ''['' @
                                          printf_d ((if fg then 30 else 40) + code) @ ''m'')))
             | None \<Rightarrow>
                 (case map_of named spec of
                    Some code \<Rightarrow>
                      buf_append_str b
                        (snprintf 16 (ESC # ''['' @
                                      printf_d ((if fg then 30 else 40) + code) @ ''m''))
                  | None \<Rightarrow> b)))"

section \<open>Pass 2: the escape scanner\<close>

text \<open>
  \<open>lle_prompt_expand_ctx_t\<close>.  The template engine of pass 1 is not part of the
  sources at hand: a non-NULL \<open>template_ctx\<close> is modelled by the function that
  \<open>lle_template_evaluate(format, template_ctx, intermediate, size)\<close> computes, from the
  format and the size of the intermediate array to the result code and the C string
  left in that array.
\<close>

record lle_prompt_expand_ctx =
  template_ctx :: "(string \<Rightarrow> nat \<Rightarrow> lle_result \<times> string) option"
  last_exit_status :: int
  job_count :: int
  history_number :: int
  command_number :: int
  color_depth :: int

text \<open>
  The test \<open>*p < 0x40\<close> on a plain \<open>char\<close>: where \<open>char\<close> is signed the bytes from
  \<open>0x80\<close> on are negative and pass it.
\<close>

definition char_lt_0x40 :: "bool \<Rightarrow> char \<Rightarrow> bool" where
  "char_lt_0x40 sg c = (byte c < 0x40 \<or> (sg \<and> 0x80 \<le> byte c))"

text \<open>
  The scanner reads the bytes of its input before the NUL: in the functions below the
  list \<open>p\<close> is what the pointer \<open>p\<close> of the source still has to read, and \<open>[]\<close> is
  \<open>*p == '\0'\<close>.

  The loop that copies the parameter bytes of a CSI sequence.
\<close>

fun ansi_params :: "bool \<Rightarrow> string \<Rightarrow> expand_buf \<Rightarrow> string \<times> expand_buf" where
  "ansi_params sg [] b = ([], b)"
| "ansi_params sg (c # p) b =
     (if char_lt_0x40 sg c then ansi_params sg p (buf_append_char b c) else (c # p, b))"

text \<open>The digit loops of \<open>\0NNN\<close> and \<open>\xNN\<close>: \<open>digits\<close>, \<open>val\<close> and \<open>p\<close> of the source.\<close>

fun octal_digits :: "nat \<Rightarrow> nat \<Rightarrow> string \<Rightarrow> nat \<times> string" where
  "octal_digits digits val [] = (val, [])"
| "octal_digits digits val (c # p) =
     (if digits < 3 \<and> 48 \<le> byte c \<and> byte c \<le> 55
      then octal_digits (digits + 1) (val * 8 + (byte c - 48)) p
      else (val, c # p))"

fun hex_digits :: "nat \<Rightarrow> nat \<Rightarrow> string \<Rightarrow> nat \<times> string" where
  "hex_digits digits val [] = (val, [])"
| "hex_digits digits val (c # p) =
     (if digits < 2 \<and>
         ((48 \<le> byte c \<and> byte c \<le> 57) \<or> (97 \<le> byte c \<and> byte c \<le> 102) \<or>
          (65 \<le> byte c \<and> byte c \<le> 70))
      then hex_digits (digits + 1)
             (if 48 \<le> byte c \<and> byte c \<le> 57 then val * 16 + (byte c - 48)
              else if 97 \<le> byte c \<and> byte c \<le> 102 then val * 16 + (byte c - 97 + 10)
              else val * 16 + (byte c - 65 + 10)) p
      else (val, c # p))"

text \<open>
  The argument in braces of \<open>%D\<close>, \<open>%F\<close> and \<open>%K\<close>, read after the opening brace:
  the bytes up to the closing brace (or the end), cut to fit an array of \<open>cap\<close> bytes,
  and the input after the closing brace.
\<close>

definition brace_arg :: "nat \<Rightarrow> string \<Rightarrow> string \<times> string" where
  "brace_arg cap p =
     (let arg = takeWhile (\<lambda>c. c \<noteq> CHR ''}'') p;
          p1 = dropWhile (\<lambda>c. c \<noteq> CHR ''}'') p;
          p2 = (case p1 of [] \<Rightarrow> [] | c # r \<Rightarrow> r)
      in (if length arg \<ge> cap then take (cap - 1) arg else arg, p2))"

text \<open>
  The \<open>switch\<close> on the byte after a backslash; \<open>p\<close> is the input after the two bytes.
\<close>

definition bash_escape ::
  "sys_env \<Rightarrow> lle_prompt_expand_ctx \<Rightarrow> char \<Rightarrow> string \<Rightarrow> expand_buf \<Rightarrow> string \<times> expand_buf" where
  "bash_escape env ctx next p b =
     (if next = CHR ''u'' then (p, buf_append_str b (get_username env))
      else if next = CHR ''h'' then (p, buf_append_str b (get_hostname_short env 256))
      else if next = CHR ''H'' then (p, buf_append_str b (get_hostname_full env 256))
      else if next = CHR ''w'' then (p, buf_append_str b (get_cwd_tilde env PATH_MAX))
      else if next = CHR ''W'' then (p, buf_append_str b (get_cwd_basename env PATH_MAX))
      else if next = CHR ''d'' then (p, buf_append_str b (strftime_now env 64 ''%a %b %d''))
      else if next = CHR ''t'' then (p, buf_append_str b (strftime_now env 16 ''%H:%M:%S''))
      else if next = CHR ''T'' then (p, buf_append_str b (strftime_now env 16 ''%I:%M:%S''))
      else if next = CHR ''@'' then (p, buf_append_str b (strftime_now env 16 ''%I:%M %p''))
      else if next = CHR ''A'' then (p, buf_append_str b (strftime_now env 16 ''%H:%M''))
      else if next = CHR ''$''
      then (p, buf_append_char b (if getuid env = 0 then CHR ''#'' else CHR ''$''))
      else if next = CHR ''n'' then (p, buf_append_char b LF)
      else if next = CHR ''r'' then (p, buf_append_char b CR)
      else if next = CHR 0x5C then (p, buf_append_char b (CHR 0x5C))
      else if next = CHR ''['' then (p, b)
      else if next = CHR '']'' then (p, b)
      else if next = CHR ''!'' then (p, buf_append_int b (history_number ctx))
      else if next = CHR ''#'' then (p, buf_append_int b (command_number ctx))
      else if next = CHR ''j'' then (p, buf_append_int b (job_count ctx))
      else if next = CHR ''l''
      then (let tty = get_tty_name env
            in (p, buf_append_str b
                     (case strrchr tty (CHR ''/'') of Some base \<Rightarrow> tl base | None \<Rightarrow> tty)))
      else if next = CHR ''s'' then (p, buf_append_str b (LUSH_NAME env))
      else if next = CHR ''v''
      then (p, buf_append_str b
                 (snprintf 16 (printf_d (LUSH_VERSION_MAJOR env) @ ''.'' @
                               printf_d (LUSH_VERSION_MINOR env))))
      else if next = CHR ''V'' then (p, buf_append_str b (LUSH_VERSION_STRING env))
      else if next = CHR ''e'' then (p, buf_append_char b ESC)
      else if next = CHR ''a'' then (p, buf_append_char b BEL)
      else if next = CHR ''0''
      then (let (val, p') = octal_digits 0 0 p
            in (p', if val \<le> 255 then buf_append_char b (char_of val) else b))
      else if next = CHR ''x''
      then (let (val, p') = hex_digits 0 0 p
            in (p', if val \<le> 255 then buf_append_char b (char_of val) else b))
      else (p, buf_append_char (buf_append_char b (CHR 0x5C)) next))"

text \<open>The \<open>switch\<close> on the byte after a percent sign.\<close>

definition zsh_escape ::
  "sys_env \<Rightarrow> lle_prompt_expand_ctx \<Rightarrow> char \<Rightarrow> string \<Rightarrow> expand_buf \<Rightarrow> string \<times> expand_buf" where
  "zsh_escape env ctx next p b =
     (if next = CHR ''n'' then (p, buf_append_str b (get_username env))
      else if next = CHR ''m'' then (p, buf_append_str b (get_hostname_short env 256))
      else if next = CHR ''M'' then (p, buf_append_str b (get_hostname_full env 256))
      else if next = CHR ''d'' \<or> next = CHR ''/''
      then (p, buf_append_str b (get_cwd_full env PATH_MAX))
      else if next = CHR ''~'' then (p, buf_append_str b (get_cwd_tilde env PATH_MAX))
      else if next = CHR ''c'' \<or> next = CHR ''.''
      then (p, buf_append_str b (get_cwd_basename env PATH_MAX))
      else if next = CHR ''#''
      then (p, buf_append_char b (if getuid env = 0 then CHR ''#'' else CHR ''%''))
      else if next = CHR ''%'' then (p, buf_append_char b (CHR ''%''))
      else if next = CHR ''T'' then (p, buf_append_str b (strftime_now env 16 ''%H:%M''))
      else if next = CHR ''t'' \<or> next = CHR ''@''
      then (p, buf_append_str b (strftime_now env 16 ''%l:%M %p''))
      else if next = CHR ''*'' then (p, buf_append_str b (strftime_now env 16 ''%H:%M:%S''))
      else if next = CHR ''j'' then (p, buf_append_int b (job_count ctx))
      else if next = CHR ''l'' then (p, buf_append_str b (get_tty_name env))
      else if next = CHR ''?'' then (p, buf_append_int b (last_exit_status ctx))
      else if next = CHR ''D''
      then (case p of
              c # p1 \<Rightarrow>
                if c = CHR ''{''
                then (let (fmt, p2) = brace_arg 128 p1
                      in (p2, buf_append_str b (strftime_now env 256 fmt)))
                else (p, buf_append_str b (strftime_now env 32 ''%y-%m-%d''))
            | [] \<Rightarrow> (p, buf_append_str b (strftime_now env 32 ''%y-%m-%d'')))
      else if next = CHR ''B'' then (p, buf_append_str b (ESC # ''[1m''))
      else if next = CHR ''b'' then (p, buf_append_str b (ESC # ''[22m''))
      else if next = CHR ''U'' then (p, buf_append_str b (ESC # ''[4m''))
      else if next = CHR ''u'' then (p, buf_append_str b (ESC # ''[24m''))
      else if next = CHR ''S'' then (p, buf_append_str b (ESC # ''[7m''))
      else if next = CHR ''s'' then (p, buf_append_str b (ESC # ''[27m''))
      else if next = CHR ''F''
      then (case p of
              c # p1 \<Rightarrow>
                if c = CHR ''{''
                then (let (spec, p2) = brace_arg 64 p1
                      in (p2, emit_color b spec (color_depth ctx) True))
                else (p, b)
            | [] \<Rightarrow> (p, b))
      else if next = CHR ''f'' then (p, buf_append_str b (ESC # ''[39m''))
      else if next = CHR ''K''
      then (case p of
              c # p1 \<Rightarrow>
                if c = CHR ''{''
                then (let (spec, p2) = brace_arg 64 p1
                      in (p2, emit_color b spec (color_depth ctx) False))
                else (p, b)
            | [] \<Rightarrow> (p, b))
      else if next = CHR ''k'' then (p, buf_append_str b (ESC # ''[49m''))
      else (p, buf_append_char (buf_append_char b (CHR ''%'')) next))"

text \<open>
  One turn of the \<open>while (*p)\<close> loop of \<open>expand_prompt_escapes\<close>, for \<open>*p = c\<close> and
  the input \<open>p\<close> after it: the ANSI passthrough first, then the two escape tables,
  then the plain copy.  A backslash or percent sign that ends the input is a plain byte.
\<close>

definition expand_step ::
  "sys_env \<Rightarrow> lle_prompt_expand_ctx \<Rightarrow> char \<Rightarrow> string \<Rightarrow> expand_buf \<Rightarrow> string \<times> expand_buf" where
  "expand_step env ctx c p b =
     (if c = ESC
      then (let b1 = buf_append_char b c
            in case p of
                 [] \<Rightarrow> (p, b1)
               | d # p1 \<Rightarrow>
                   if d = CHR ''[''
                   then (let (p2, b2) = ansi_params (char_is_signed env) p1 (buf_append_char b1 d)
                         in case p2 of
                              [] \<Rightarrow> (p2, b2)
                            | f # p3 \<Rightarrow> (p3, buf_append_char b2 f))
                   else (p, b1))
      else if c = CHR 0x5C \<and> p \<noteq> [] then bash_escape env ctx (hd p) (tl p) b
      else if c = CHR ''%'' \<and> p \<noteq> [] then zsh_escape env ctx (hd p) (tl p) b
      else (p, buf_append_char b c))"

text \<open>Every turn of the loop leaves less input than it found, so the scan ends.\<close>

lemma ansi_params_length: "length (fst (ansi_params sg p b)) \<le> length p"
  by (induction p arbitrary: b) (auto intro: le_SucI)

lemma octal_digits_length: "length (snd (octal_digits d v p)) \<le> length p"
  by (induction p arbitrary: d v) (auto intro: le_SucI)

lemma hex_digits_length: "length (snd (hex_digits d v p)) \<le> length p"
  by (induction p arbitrary: d v) (auto intro: le_SucI simp del: One_nat_def)

lemma brace_arg_length: "length (snd (brace_arg cap p)) \<le> length p"
proof -
  have "length (dropWhile (\<lambda>c. c \<noteq> CHR ''}'') p) \<le> length p"
    by (rule length_dropWhile_le)
  then show ?thesis
    by (auto simp: brace_arg_def Let_def split: list.splits)
qed

lemma bash_escape_length: "length (fst (bash_escape env ctx next p b)) \<le> length p"
  using octal_digits_length [of 0 0 p] hex_digits_length [of 0 0 p]
  by (simp add: bash_escape_def Let_def split_beta)

lemma zsh_escape_length: "length (fst (zsh_escape env ctx next p b)) \<le> length p"
proof (cases p)
  case Nil
  then show ?thesis by (simp add: zsh_escape_def)
next
  case (Cons c p1)
  then show ?thesis
    using brace_arg_length [of 128 p1] brace_arg_length [of 64 p1]
    by (simp add: zsh_escape_def Let_def split_beta)
qed

lemma expand_step_length: "length (fst (expand_step env ctx c p b)) \<le> length p"
proof (cases p)
  case Nil
  then show ?thesis by (simp add: expand_step_def Let_def)
next
  case (Cons d p1)
  have "length (fst (ansi_params (char_is_signed env) p1
                       (buf_append_char (buf_append_char b ESC) (CHR ''['')))) \<le> length p1"
    by (rule ansi_params_length)
  then show ?thesis
    using Cons bash_escape_length [of env ctx d p1 b] zsh_escape_length [of env ctx d p1 b]
    by (auto simp: expand_step_def Let_def split_beta split: list.split)
qed

text \<open>The \<open>while (*p)\<close> loop.\<close>

function expand_loop ::
  "sys_env \<Rightarrow> lle_prompt_expand_ctx \<Rightarrow> string \<Rightarrow> expand_buf \<Rightarrow> expand_buf" where
  "expand_loop env ctx [] b = b"
| "expand_loop env ctx (c # p) b =
     expand_loop env ctx (fst (expand_step env ctx c p b)) (snd (expand_step env ctx c p b))"
  by pat_completeness auto
termination
  by (relation "measure (\<lambda>(env, ctx, p, b). length p)")
     (simp_all add: expand_step_length le_imp_less_Suc split_beta)

declare expand_loop.simps(2) [simp del]

definition expand_prompt_escapes ::
  "sys_env \<Rightarrow> string \<Rightarrow> char list \<Rightarrow> nat \<Rightarrow> lle_prompt_expand_ctx \<Rightarrow> lle_result \<times> char list" where
  "expand_prompt_escapes env input output sz ctx =
     (LLE_SUCCESS, eb_buf (expand_loop env ctx input (buf_init output sz)))"

section \<open>The public entry point \<open>lle_prompt_expand\<close>\<close>

text \<open>
  The pointers \<open>format\<close>, \<open>output\<close> and \<open>ctx\<close> may be NULL.  \<open>output\<close> is the
  caller's array; the result is the result code and the array after the call.
\<close>

definition lle_prompt_expand ::
  "sys_env \<Rightarrow> string option \<Rightarrow> char list option \<Rightarrow> nat \<Rightarrow> lle_prompt_expand_ctx option
     \<Rightarrow> lle_result \<times> char list option" where
  "lle_prompt_expand env format output output_size ctx =
     (if format = None \<or> output = None \<or> output_size = 0 \<or> ctx = None
      then (LLE_ERROR_NULL_POINTER, output)
      else
        (let out1 = (the output)[0 := NUL]
         in case template_ctx (the ctx) of
              Some evaluate \<Rightarrow>
                (let (r, intermediate) = evaluate (c_str (the format)) EXPAND_BUF_SIZE
                 in if r \<noteq> LLE_SUCCESS then (r, Some out1)
                    else (let (r2, out2) = expand_prompt_escapes env (c_str intermediate) out1
                                             output_size (the ctx)
                          in (r2, Some out2)))
            | None \<Rightarrow>
                (let (r2, out2) = expand_prompt_escapes env (c_str (the format)) out1
                                    output_size (the ctx)
                 in (r2, Some out2))))"

text \<open>The C string that a call with non-NULL arguments leaves in the output array.\<close>

definition expand_output ::
  "sys_env \<Rightarrow> lle_prompt_expand_ctx \<Rightarrow> string \<Rightarrow> char list \<Rightarrow> nat \<Rightarrow> string" where
  "expand_output env ctx fmt mem n =
     (case snd (lle_prompt_expand env (Some fmt) (Some mem) n (Some ctx)) of
        Some m \<Rightarrow> c_str m
      | None \<Rightarrow> [])"

section \<open>Example environments\<close>

text \<open>
  Two processes used for the concrete instances below: user \<open>alice\<close> (uid 1000) in her
  home directory, and the same user running a set-uid-root binary, where the real uid
  is still 1000 and the effective uid is 0.  \<open>ctx_plain\<close> has no template context.
\<close>

definition env_alice :: sys_env where
  "env_alice =
     \<lparr>getuid = 1000, geteuid = 1000,
      getpwuid = (\<lambda>u. if u = 1000
                       then Some \<lparr>pw_name = ''alice'', pw_dir = Some ''/home/alice''\<rparr>
                       else None),
      gethostname = (\<lambda>n. Some ''hq.example''),
      getcwd = (\<lambda>n. Some ''/home/alice''),
      ttyname = Some ''/dev/pts/0'',
      strftime_now = (\<lambda>n fmt. ''12:00''),
      char_is_signed = True,
      LUSH_NAME = ''lush'', LUSH_VERSION_MAJOR = 1, LUSH_VERSION_MINOR = 4,
      LUSH_VERSION_STRING = ''1.4.0''\<rparr>"

definition env_setuid :: sys_env where
  "env_setuid = env_alice\<lparr>geteuid := 0\<rparr>"

definition ctx_plain :: lle_prompt_expand_ctx where
  "ctx_plain =
     \<lparr>template_ctx = None, last_exit_status = 0, job_count = 2, history_number = 17,
      command_number = 3, color_depth = 3\<rparr>"

section \<open>Properties of the output buffer\<close>

text \<open>
  The invariant of \<open>expand_buf_t\<close> between two calls: the write position is inside
  the announced size, the array is at least that long, and the byte at the write
  position is the terminator.
\<close>

definition buf_ok :: "expand_buf \<Rightarrow> bool" where
  "buf_ok b \<longleftrightarrow> eb_size b \<le> length (eb_buf b) \<and> eb_pos b < eb_size b \<and> eb_buf b ! eb_pos b = NUL"

definition contents :: "expand_buf \<Rightarrow> string" where
  "contents b = take (eb_pos b) (eb_buf b)"

fun append_chars :: "string \<Rightarrow> expand_buf \<Rightarrow> expand_buf" where
  "append_chars [] b = b"
| "append_chars (c # cs) b = append_chars cs (buf_append_char b c)"

lemma buf_init_ok: "0 < sz \<Longrightarrow> sz \<le> length mem \<Longrightarrow> buf_ok (buf_init mem sz)"
  by (cases mem) (simp_all add: buf_ok_def buf_init_def)

lemma buf_append_char_ok: "buf_ok b \<Longrightarrow> buf_ok (buf_append_char b c)"
  by (simp add: buf_ok_def buf_append_char_def)

lemma buf_append_char_size [simp]: "eb_size (buf_append_char b c) = eb_size b"
  by (simp add: buf_append_char_def)

lemma append_chars_ok: "buf_ok b \<Longrightarrow> buf_ok (append_chars cs b)"
  by (induction cs arbitrary: b) (simp_all add: buf_append_char_ok)

lemma append_chars_size [simp]: "eb_size (append_chars cs b) = eb_size b"
  by (induction cs arbitrary: b) simp_all

lemma append_chars_append: "append_chars (xs @ ys) b = append_chars ys (append_chars xs b)"
  by (induction xs arbitrary: b) simp_all

lemma append_chars_full: "\<not> eb_pos b + 1 < eb_size b \<Longrightarrow> append_chars cs b = b"
  by (induction cs) (simp_all add: buf_append_char_def)

lemma buf_append_str_loop_eq:
  "eb_pos b < eb_size b \<Longrightarrow> eb_size b \<le> length (eb_buf b) \<Longrightarrow>
   (let b' = buf_append_str_loop b s in
      eb_pos b' < eb_size b' \<and> eb_size b' = eb_size b \<and>
      b'\<lparr>eb_buf := (eb_buf b')[eb_pos b' := NUL]\<rparr> =
        append_chars (c_str s) (b\<lparr>eb_buf := (eb_buf b)[eb_pos b := NUL]\<rparr>))"
proof (induction s arbitrary: b)
  case Nil
  then show ?case by (simp add: c_str_def)
next
  case (Cons c s)
  show ?case
  proof (cases "c \<noteq> NUL \<and> eb_pos b + 1 < eb_size b")
    case True
    let ?b1 = "b\<lparr>eb_buf := (eb_buf b)[eb_pos b := c], eb_pos := eb_pos b + 1\<rparr>"
    have "eb_pos ?b1 < eb_size ?b1" "eb_size ?b1 \<le> length (eb_buf ?b1)"
      using True Cons.prems by simp_all
    moreover have "buf_append_char (b\<lparr>eb_buf := (eb_buf b)[eb_pos b := NUL]\<rparr>) c =
        ?b1\<lparr>eb_buf := (eb_buf ?b1)[eb_pos ?b1 := NUL]\<rparr>"
      using True by (cases b) (simp add: buf_append_char_def)
    ultimately show ?thesis
      using Cons.IH [of ?b1] True
      by (simp add: Let_def c_str_def)
  next
    case False
    then show ?thesis
      using Cons.prems
      by (auto simp: Let_def c_str_def append_chars_full buf_append_char_def)
  qed
qed

lemma buf_append_str_eq: "buf_ok b \<Longrightarrow> buf_append_str b s = append_chars (c_str s) b"
proof -
  assume ok: "buf_ok b"
  then have 1: "eb_pos b < eb_size b" and 2: "eb_size b \<le> length (eb_buf b)"
    and 3: "(eb_buf b)[eb_pos b := NUL] = eb_buf b"
    by (simp_all add: buf_ok_def list_update_same_conv)
  from buf_append_str_loop_eq [OF 1 2, of s] 3 show ?thesis
    by (simp add: buf_append_str_def Let_def)
qed

lemma buf_append_int_eq:
  "buf_ok b \<Longrightarrow> buf_append_int b v = append_chars (c_str (snprintf 32 (printf_d v))) b"
  by (simp add: buf_append_int_def buf_append_str_eq)

section \<open>Every operation of the scanner appends a fixed byte sequence\<close>

text \<open>
  \<open>emits f\<close>: on every well-formed buffer \<open>f\<close> appends, byte by byte and up to the
  room left, a sequence that does not depend on the buffer.  \<open>steps f\<close>: the same for a
  function that also returns the rest of the input, which does not depend on the
  buffer either.
\<close>

definition emits :: "(expand_buf \<Rightarrow> expand_buf) \<Rightarrow> bool" where
  "emits f \<longleftrightarrow> (\<exists>cs. \<forall>b. buf_ok b \<longrightarrow> f b = append_chars cs b)"

definition steps :: "(expand_buf \<Rightarrow> string \<times> expand_buf) \<Rightarrow> bool" where
  "steps f \<longleftrightarrow> (\<exists>p cs. \<forall>b. buf_ok b \<longrightarrow> f b = (p, append_chars cs b))"

lemma emits_id: "emits (\<lambda>b. b)"
  unfolding emits_def by (rule exI [of _ "[]"]) simp

lemma emits_comp:
  assumes "emits f" and "emits g"
  shows "emits (\<lambda>b. g (f b))"
proof -
  from assms obtain cs ds where
    f: "\<And>b. buf_ok b \<Longrightarrow> f b = append_chars cs b" and
    g: "\<And>b. buf_ok b \<Longrightarrow> g b = append_chars ds b"
    unfolding emits_def by blast
  have "\<forall>b. buf_ok b \<longrightarrow> g (f b) = append_chars (cs @ ds) b"
    by (simp add: f g append_chars_ok append_chars_append)
  then show ?thesis unfolding emits_def by blast
qed

lemma emits_char0: "emits (\<lambda>b. buf_append_char b c)"
  unfolding emits_def by (rule exI [of _ "[c]"]) simp

lemma emits_str0: "emits (\<lambda>b. buf_append_str b s)"
  unfolding emits_def by (rule exI [of _ "c_str s"]) (simp add: buf_append_str_eq)

lemma emits_int0: "emits (\<lambda>b. buf_append_int b v)"
  unfolding emits_def
  by (rule exI [of _ "c_str (snprintf 32 (printf_d v))"]) (simp add: buf_append_int_eq)

lemma emits_char: "emits f \<Longrightarrow> emits (\<lambda>b. buf_append_char (f b) c)"
  by (rule emits_comp [OF _ emits_char0])

lemma emits_str: "emits f \<Longrightarrow> emits (\<lambda>b. buf_append_str (f b) s)"
  by (rule emits_comp [OF _ emits_str0])

lemma emits_int: "emits f \<Longrightarrow> emits (\<lambda>b. buf_append_int (f b) v)"
  by (rule emits_comp [OF _ emits_int0])

lemma emits_if: "emits f \<Longrightarrow> emits g \<Longrightarrow> emits (\<lambda>b. if c then f b else g b)"
  by (cases c) simp_all

lemma emits_case_option:
  "emits f \<Longrightarrow> (\<And>y. emits (g y)) \<Longrightarrow> emits (\<lambda>b. case x of None \<Rightarrow> f b | Some y \<Rightarrow> g y b)"
  by (cases x) simp_all

lemma emits_case_prod:
  "(\<And>x y. emits (f x y)) \<Longrightarrow> emits (\<lambda>b. case pr of (x, y) \<Rightarrow> f x y b)"
  by (cases pr) simp

lemma emits_emit_color0: "emits (\<lambda>b. emit_color b spec d fg)"
  unfolding emit_color_def Let_def
  by (intro emits_if emits_case_option emits_case_prod emits_str emits_id)

lemma emits_emit_color: "emits f \<Longrightarrow> emits (\<lambda>b. emit_color (f b) spec d fg)"
  by (rule emits_comp [OF _ emits_emit_color0])

lemma steps_pair: "emits f \<Longrightarrow> steps (\<lambda>b. (p, f b))"
  unfolding emits_def steps_def by blast

lemma steps_if: "steps f \<Longrightarrow> steps g \<Longrightarrow> steps (\<lambda>b. if c then f b else g b)"
  by (cases c) simp_all

lemma steps_case_prod:
  "(\<And>x y. steps (f x y)) \<Longrightarrow> steps (\<lambda>b. case pr of (x, y) \<Rightarrow> f x y b)"
  by (cases pr) simp

lemma steps_case_list:
  "steps f \<Longrightarrow> (\<And>x xs. steps (g x xs)) \<Longrightarrow>
   steps (\<lambda>b. case l of [] \<Rightarrow> f b | x # xs \<Rightarrow> g x xs b)"
  by (cases l) simp_all

lemmas emits_intros = emits_if emits_case_option emits_case_prod emits_str emits_char emits_int
  emits_emit_color emits_id

lemma steps_bash_escape: "steps (\<lambda>b. bash_escape env ctx next p b)"
  unfolding bash_escape_def Let_def
  by (intro steps_if steps_case_prod steps_pair emits_intros)

lemma steps_zsh_escape: "steps (\<lambda>b. zsh_escape env ctx next p b)"
  unfolding zsh_escape_def Let_def
  by (intro steps_if steps_case_prod steps_case_list steps_pair emits_intros)

lemma steps_ansi_params: "steps (\<lambda>b. ansi_params sg p b)"
proof (induction p)
  case Nil
  show ?case by (simp add: steps_pair emits_id)
next
  case (Cons c p)
  from Cons obtain q cs where
    *: "\<And>b. buf_ok b \<Longrightarrow> ansi_params sg p b = (q, append_chars cs b)"
    unfolding steps_def by blast
  show ?case
  proof (cases "char_lt_0x40 sg c")
    case True
    have "\<forall>b. buf_ok b \<longrightarrow> ansi_params sg (c # p) b = (q, append_chars (c # cs) b)"
      using True by (simp add: * buf_append_char_ok)
    then show ?thesis unfolding steps_def by blast
  next
    case False
    then show ?thesis by (simp add: steps_pair emits_id)
  qed
qed

lemma steps_comp:
  assumes "emits f" and "steps g"
  shows "steps (\<lambda>b. g (f b))"
proof -
  from assms obtain cs p ds where
    f: "\<And>b. buf_ok b \<Longrightarrow> f b = append_chars cs b" and
    g: "\<And>b. buf_ok b \<Longrightarrow> g b = (p, append_chars ds b)"
    unfolding emits_def steps_def by blast
  have "\<forall>b. buf_ok b \<longrightarrow> g (f b) = (p, append_chars (cs @ ds) b)"
    by (simp add: f g append_chars_ok append_chars_append)
  then show ?thesis unfolding steps_def by blast
qed

lemma steps_bind:
  assumes "steps f" and "\<And>p. steps (g p)"
  shows "steps (\<lambda>b. case f b of (p, b1) \<Rightarrow> g p b1)"
proof -
  from assms(1) obtain p cs where
    f: "\<And>b. buf_ok b \<Longrightarrow> f b = (p, append_chars cs b)"
    unfolding steps_def by blast
  from assms(2) [of p] obtain q ds where
    g: "\<And>b. buf_ok b \<Longrightarrow> g p b = (q, append_chars ds b)"
    unfolding steps_def by blast
  have "\<forall>b. buf_ok b \<longrightarrow> (case f b of (p, b1) \<Rightarrow> g p b1) = (q, append_chars (cs @ ds) b)"
    by (simp add: f g append_chars_ok append_chars_append)
  then show ?thesis unfolding steps_def by blast
qed

lemma steps_ansi_params_after: "emits f \<Longrightarrow> steps (\<lambda>b. ansi_params sg p (f b))"
  by (rule steps_comp [OF _ steps_ansi_params])

lemma steps_expand_step: "steps (\<lambda>b. expand_step env ctx c p b)"
  unfolding expand_step_def Let_def
  by (intro steps_if steps_case_list steps_bind steps_ansi_params_after steps_pair emits_intros
        steps_bash_escape steps_zsh_escape)

lemma emits_expand_loop: "emits (\<lambda>b. expand_loop env ctx p b)"
proof (induction "length p" arbitrary: p rule: less_induct)
  case less
  show ?case
  proof (cases p)
    case Nil
    have "\<forall>b. buf_ok b \<longrightarrow> expand_loop env ctx p b = append_chars [] b"
      using Nil by simp
    then show ?thesis unfolding emits_def by blast
  next
    case (Cons c q)
    from steps_expand_step [of env ctx c q] obtain q' cs where
      st: "\<And>b. buf_ok b \<Longrightarrow> expand_step env ctx c q b = (q', append_chars cs b)"
      unfolding steps_def by blast
    have ex: "buf_ok (buf_init [NUL] 1)"
      by (simp add: buf_init_ok)
    have "length q' \<le> length q"
      using expand_step_length [of env ctx c q "buf_init [NUL] 1"] st [OF ex] by simp
    then have "length q' < length p"
      using Cons by simp
    from less [OF this] obtain ds where
      lp: "\<And>b. buf_ok b \<Longrightarrow> expand_loop env ctx q' b = append_chars ds b"
      unfolding emits_def by blast
    have "\<forall>b. buf_ok b \<longrightarrow> expand_loop env ctx p b = append_chars (cs @ ds) b"
      using Cons by (simp add: expand_loop.simps st lp append_chars_ok append_chars_append)
    then show ?thesis unfolding emits_def by blast
  qed
qed

lemma expand_loop_ok: "buf_ok b \<Longrightarrow> buf_ok (expand_loop env ctx p b)"
  using emits_expand_loop [of env ctx p] unfolding emits_def
  by (auto simp: append_chars_ok)

lemma buf_append_char_length [simp]: "length (eb_buf (buf_append_char b c)) = length (eb_buf b)"
  by (simp add: buf_append_char_def)

lemma append_chars_length [simp]: "length (eb_buf (append_chars cs b)) = length (eb_buf b)"
  by (induction cs arbitrary: b) simp_all

lemma expand_loop_length:
  "buf_ok b \<Longrightarrow> length (eb_buf (expand_loop env ctx p b)) = length (eb_buf b)"
  using emits_expand_loop [of env ctx p] unfolding emits_def by auto

lemma expand_loop_size: "buf_ok b \<Longrightarrow> eb_size (expand_loop env ctx p b) = eb_size b"
  using emits_expand_loop [of env ctx p] unfolding emits_def by auto

lemma c_str_length_le: "i < length mem \<Longrightarrow> mem ! i = NUL \<Longrightarrow> length (c_str mem) \<le> i"
proof (induction mem arbitrary: i)
  case Nil
  then show ?case by simp
next
  case (Cons a mem)
  then show ?case by (cases i) (auto simp: c_str_def)
qed

lemma c_str_nth_NUL: "length (c_str mem) < length mem \<Longrightarrow> mem ! length (c_str mem) = NUL"
  unfolding c_str_def
  using nth_length_takeWhile [of "\<lambda>c. c \<noteq> NUL" mem] by simp

lemma buf_ok_strlen: "buf_ok b \<Longrightarrow> length (c_str (eb_buf b)) < eb_size b"
  unfolding buf_ok_def using c_str_length_le [of "eb_pos b" "eb_buf b"] by simp

definition written :: "expand_buf \<Rightarrow> string" where
  "written b = take (eb_pos b) (eb_buf b)"

lemma written_buf_init [simp]: "written (buf_init mem n) = []"
  by (simp add: written_def buf_init_def)

lemma buf_init_size [simp]: "eb_size (buf_init mem n) = n"
  by (simp add: buf_init_def)

lemma buf_init_pos [simp]: "eb_pos (buf_init mem n) = 0"
  by (simp add: buf_init_def)

lemma written_append_char:
  "buf_ok b \<Longrightarrow> written (buf_append_char b c) =
     (if eb_pos b + 1 < eb_size b then written b @ [c] else written b)"
  by (auto simp: written_def buf_append_char_def buf_ok_def take_Suc_conv_app_nth)

lemma buf_append_char_pos:
  "eb_pos (buf_append_char b c) = (if eb_pos b + 1 < eb_size b then eb_pos b + 1 else eb_pos b)"
  by (simp add: buf_append_char_def)

lemma written_append_chars:
  "buf_ok b \<Longrightarrow>
   written (append_chars cs b) = written b @ take (eb_size b - 1 - eb_pos b) cs"
proof (induction cs arbitrary: b)
  case Nil
  then show ?case by simp
next
  case (Cons c cs)
  show ?case
  proof (cases "eb_pos b + 1 < eb_size b")
    case True
    then have "eb_size b - 1 - eb_pos b = Suc (eb_size b - 1 - (eb_pos b + 1))"
      by simp
    then show ?thesis
      using Cons.IH [OF buf_append_char_ok [OF Cons.prems], of c] Cons.prems True
      by (simp add: written_append_char buf_append_char_pos)
  next
    case False
    then show ?thesis
      using Cons.prems by (simp add: append_chars_full buf_append_char_def)
  qed
qed

lemma c_str_written: "buf_ok b \<Longrightarrow> c_str (eb_buf b) = c_str (written b)"
proof -
  assume ok: "buf_ok b"
  then have "eb_pos b < length (eb_buf b)" and "eb_buf b ! eb_pos b = NUL"
    by (simp_all add: buf_ok_def)
  then have "eb_buf b = written b @ NUL # drop (Suc (eb_pos b)) (eb_buf b)"
    using id_take_nth_drop [of "eb_pos b" "eb_buf b"] by (simp add: written_def)
  then have "c_str (eb_buf b) = takeWhile (\<lambda>c. c \<noteq> NUL) (written b @ NUL # drop (Suc (eb_pos b)) (eb_buf b))"
    unfolding c_str_def by simp
  also have "\<dots> = c_str (written b)"
    unfolding c_str_def by (rule takeWhile_tail) simp
  finally show ?thesis .
qed

lemma c_str_append_chars_init:
  "0 < n \<Longrightarrow> n \<le> length mem \<Longrightarrow>
   c_str (eb_buf (append_chars cs (buf_init mem n))) = c_str (take (n - 1) cs)"
proof -
  assume a: "0 < n" "n \<le> length mem"
  then have ok: "buf_ok (buf_init mem n)" by (simp add: buf_init_ok)
  have "c_str (eb_buf (append_chars cs (buf_init mem n))) =
        c_str (written (append_chars cs (buf_init mem n)))"
    by (rule c_str_written [OF append_chars_ok [OF ok]])
  also have "\<dots> = c_str (take (n - 1) cs)"
    using written_append_chars [OF ok, of cs] by simp
  finally show ?thesis .
qed

lemma c_str_NUL_free: "NUL \<notin> set s \<Longrightarrow> c_str s = s"
  by (induction s) (auto simp: c_str_def)

lemma c_str_append: "NUL \<notin> set s \<Longrightarrow> c_str (s @ t) = s @ c_str t"
  by (induction s) (auto simp: c_str_def)

lemma expand_loop_plain:
  "CHR 0x5C \<notin> set S \<Longrightarrow> CHR ''%'' \<notin> set S \<Longrightarrow> ESC \<notin> set S \<Longrightarrow>
   expand_loop env ctx S b = append_chars S b"
  by (induction S arbitrary: b) (auto simp: expand_loop.simps(2) expand_step_def)

lemma expand_output_no_template:
  "template_ctx ctx = None \<Longrightarrow> 0 < n \<Longrightarrow>
   expand_output env ctx fmt mem n =
     c_str (eb_buf (expand_loop env ctx (c_str fmt) (buf_init (mem[0 := NUL]) n)))"
  by (simp add: expand_output_def lle_prompt_expand_def expand_prompt_escapes_def)

text \<open>The input of pass 2: the format itself, or what the template engine made of it.\<close>

definition pass2_input :: "lle_prompt_expand_ctx \<Rightarrow> string \<Rightarrow> string" where
  "pass2_input cx fmt =
     (case template_ctx cx of
        None \<Rightarrow> c_str fmt
      | Some evaluate \<Rightarrow> c_str (snd (evaluate (c_str fmt) EXPAND_BUF_SIZE)))"

text \<open>
  Claim C1.  \<open>lle_prompt_expand\<close> fails with \<open>LLE_ERROR_NULL_POINTER\<close> and leaves the
  output array as it was when \<open>format\<close>, \<open>output\<close> or \<open>ctx\<close> is NULL or the output
  size is zero.  In every other call, for an output array of at least \<open>output_size\<close>
  bytes, the array keeps its length and holds a NUL-terminated string shorter than
  \<open>output_size\<close>, whatever the format and however small the buffer.  The only result
  other than \<open>LLE_SUCCESS\<close> is an error returned by the template engine of pass 1, and
  then the string is empty.  On success the string is the expansion cut to fit: the
  scan of the source appends a byte sequence \<open>cs\<close> that does not depend on the buffer,
  and the output is the C string of the first \<open>output_size - 1\<close> bytes of \<open>cs\<close>, with
  no error when \<open>cs\<close> is longer.
\<close>

theorem lle_prompt_expand_null_or_terminated:
  "(format = None \<or> output = None \<or> output_size = 0 \<or> ctx = None \<longrightarrow>
      lle_prompt_expand env format output output_size ctx = (LLE_ERROR_NULL_POINTER, output)) \<and>
   (format \<noteq> None \<and> output = Some mem \<and> 0 < output_size \<and> output_size \<le> length mem \<and>
    ctx = Some cx \<longrightarrow>
      (\<exists>r mem'. lle_prompt_expand env format output output_size ctx = (r, Some mem') \<and>
          length mem' = length mem \<and>
          length (c_str mem') < output_size \<and> mem' ! length (c_str mem') = NUL \<and>
          (r \<noteq> LLE_SUCCESS \<longrightarrow>
             c_str mem' = [] \<and>
             (\<exists>evaluate. template_ctx cx = Some evaluate \<and>
                fst (evaluate (c_str (the format)) EXPAND_BUF_SIZE) = r)) \<and>
          (r = LLE_SUCCESS \<longrightarrow>
             (\<exists>cs. (\<forall>b. buf_ok b \<longrightarrow>
                       expand_loop env cx (pass2_input cx (the format)) b = append_chars cs b) \<and>
                   c_str mem' = c_str (take (output_size - 1) cs)))))"
proof (intro conjI impI)
  assume "format = None \<or> output = None \<or> output_size = 0 \<or> ctx = None"
  then show "lle_prompt_expand env format output output_size ctx = (LLE_ERROR_NULL_POINTER, output)"
    by (simp add: lle_prompt_expand_def)
next
  assume a: "format \<noteq> None \<and> output = Some mem \<and> 0 < output_size \<and> output_size \<le> length mem \<and>
    ctx = Some cx"
  let ?b0 = "buf_init (mem[0 := NUL]) output_size"
  let ?P = "\<lambda>r mem'. length mem' = length mem \<and>
          length (c_str mem') < output_size \<and> mem' ! length (c_str mem') = NUL \<and>
          (r \<noteq> LLE_SUCCESS \<longrightarrow>
             c_str mem' = [] \<and>
             (\<exists>evaluate. template_ctx cx = Some evaluate \<and>
                fst (evaluate (c_str (the format)) EXPAND_BUF_SIZE) = r)) \<and>
          (r = LLE_SUCCESS \<longrightarrow>
             (\<exists>cs. (\<forall>b. buf_ok b \<longrightarrow>
                       expand_loop env cx (pass2_input cx (the format)) b = append_chars cs b) \<and>
                   c_str mem' = c_str (take (output_size - 1) cs)))"
  have ok0: "buf_ok ?b0"
    using a by (simp add: buf_init_ok)
  have fin: "length (eb_buf (expand_loop env cx p ?b0)) = length mem \<and>
      length (c_str (eb_buf (expand_loop env cx p ?b0))) < output_size \<and>
      eb_buf (expand_loop env cx p ?b0) ! length (c_str (eb_buf (expand_loop env cx p ?b0))) = NUL" for p
  proof -
    have ok: "buf_ok (expand_loop env cx p ?b0)"
      by (rule expand_loop_ok [OF ok0])
    have sz: "eb_size (expand_loop env cx p ?b0) = output_size"
      using expand_loop_size [OF ok0, of env cx p] by (simp add: buf_init_def)
    have ln: "length (eb_buf (expand_loop env cx p ?b0)) = length mem"
      using expand_loop_length [OF ok0, of env cx p] by (simp add: buf_init_def)
    have sl: "length (c_str (eb_buf (expand_loop env cx p ?b0))) < output_size"
      using buf_ok_strlen [OF ok] sz by simp
    with a ln have "length (c_str (eb_buf (expand_loop env cx p ?b0))) <
        length (eb_buf (expand_loop env cx p ?b0))" by simp
    from c_str_nth_NUL [OF this] ln sl show ?thesis by simp
  qed
  have cut: "\<exists>cs. (\<forall>b. buf_ok b \<longrightarrow> expand_loop env cx p b = append_chars cs b) \<and>
      c_str (eb_buf (expand_loop env cx p ?b0)) = c_str (take (output_size - 1) cs)" for p
  proof -
    from emits_expand_loop [of env cx p] obtain cs where
      cs: "\<forall>b. buf_ok b \<longrightarrow> expand_loop env cx p b = append_chars cs b"
      unfolding emits_def by blast
    with ok0 have "expand_loop env cx p ?b0 = append_chars cs ?b0" by blast
    moreover have "c_str (eb_buf (append_chars cs ?b0)) = c_str (take (output_size - 1) cs)"
      by (rule c_str_append_chars_init) (use a in simp_all)
    ultimately show ?thesis using cs by auto
  qed
  have z: "length (c_str (mem[0 := NUL])) < output_size \<and>
      mem[0 := NUL] ! length (c_str (mem[0 := NUL])) = NUL \<and> c_str (mem[0 := NUL]) = []"
    using a by (cases mem) (auto simp: c_str_def)
  show "\<exists>r mem'. lle_prompt_expand env format output output_size ctx = (r, Some mem') \<and> ?P r mem'"
  proof (cases "template_ctx cx")
    case None
    let ?m = "eb_buf (expand_loop env cx (c_str (the format)) ?b0)"
    have "lle_prompt_expand env format output output_size ctx = (LLE_SUCCESS, Some ?m)"
      using a None by (simp add: lle_prompt_expand_def expand_prompt_escapes_def)
    moreover have "?P LLE_SUCCESS ?m"
      using fin [of "c_str (the format)"] cut [of "c_str (the format)"] None
      by (simp add: pass2_input_def)
    ultimately show ?thesis by blast
  next
    case (Some evaluate)
    obtain r inter where ev: "evaluate (c_str (the format)) EXPAND_BUF_SIZE = (r, inter)"
      by (cases "evaluate (c_str (the format)) EXPAND_BUF_SIZE")
    show ?thesis
    proof (cases "r = LLE_SUCCESS")
      case True
      let ?m = "eb_buf (expand_loop env cx (c_str inter) ?b0)"
      have "lle_prompt_expand env format output output_size ctx = (LLE_SUCCESS, Some ?m)"
        using a Some ev True by (simp add: lle_prompt_expand_def expand_prompt_escapes_def)
      moreover have "?P LLE_SUCCESS ?m"
        using fin [of "c_str inter"] cut [of "c_str inter"] Some ev
        by (simp add: pass2_input_def)
      ultimately show ?thesis by blast
    next
      case False
      have "lle_prompt_expand env format output output_size ctx = (r, Some (mem[0 := NUL]))"
        using a Some ev False by (auto simp: lle_prompt_expand_def)
      moreover have "?P r (mem[0 := NUL])"
        using z a Some ev False by (cases mem) simp_all
      ultimately show ?thesis by blast
    qed
  qed
qed

theorem lle_prompt_expand_null_or_terminated_witness:
  "lle_prompt_expand env_alice None (Some ''ZZZZ'') 4 (Some ctx_plain) =
     (LLE_ERROR_NULL_POINTER, Some ''ZZZZ'') \<and>
   (\<exists>mem'. lle_prompt_expand env_alice (Some ''abcdefgh'') (Some ''ZZZZ'') 4 (Some ctx_plain) =
              (LLE_SUCCESS, Some mem') \<and>
           length mem' = 4 \<and> c_str mem' = ''abc'' \<and> mem' ! 3 = NUL)"
proof -
  have 1: "lle_prompt_expand env_alice None (Some ''ZZZZ'') 4 (Some ctx_plain) =
     (LLE_ERROR_NULL_POINTER, Some ''ZZZZ'')"
    using lle_prompt_expand_null_or_terminated
      [of None "Some ''ZZZZ''" 4 "Some ctx_plain" env_alice "''ZZZZ''" ctx_plain]
    by simp
  have t: "template_ctx ctx_plain = None"
    by (simp add: ctx_plain_def)
  have p: "pass2_input ctx_plain ''abcdefgh'' = ''abcdefgh''"
    by (simp add: pass2_input_def t c_str_def)
  have h: "Some ''abcdefgh'' \<noteq> None \<and> Some ''ZZZZ'' = Some ''ZZZZ'' \<and> (0::nat) < 4 \<and>
      4 \<le> length ''ZZZZ'' \<and> Some ctx_plain = Some ctx_plain"
    by simp
  from lle_prompt_expand_null_or_terminated
      [of "Some ''abcdefgh''" "Some ''ZZZZ''" 4 "Some ctx_plain" env_alice "''ZZZZ''" ctx_plain,
        THEN conjunct2, rule_format, OF h]
  obtain r mem' where
    e: "lle_prompt_expand env_alice (Some ''abcdefgh'') (Some ''ZZZZ'') 4 (Some ctx_plain) =
          (r, Some mem')"
    and l: "length mem' = length ''ZZZZ''" and n: "mem' ! length (c_str mem') = NUL"
    and r: "r \<noteq> LLE_SUCCESS \<longrightarrow>
        c_str mem' = [] \<and>
        (\<exists>evaluate. template_ctx ctx_plain = Some evaluate \<and>
           fst (evaluate (c_str (the (Some ''abcdefgh''))) EXPAND_BUF_SIZE) = r)"
    and cs': "r = LLE_SUCCESS \<longrightarrow>
        (\<exists>cs. (\<forall>b. buf_ok b \<longrightarrow>
                  expand_loop env_alice ctx_plain
                    (pass2_input ctx_plain (the (Some ''abcdefgh''))) b = append_chars cs b) \<and>
              c_str mem' = c_str (take (4 - 1) cs))"
    by blast
  from r t have ok: "r = LLE_SUCCESS" by auto
  with cs' p obtain cs where
    cs: "\<forall>b. buf_ok b \<longrightarrow> expand_loop env_alice ctx_plain ''abcdefgh'' b = append_chars cs b"
    and m: "c_str mem' = c_str (take 3 cs)"
    by auto
  let ?big = "buf_init (replicate 9 NUL) 9"
  have bo: "buf_ok ?big" by (simp add: buf_init_ok)
  have "expand_loop env_alice ctx_plain ''abcdefgh'' ?big = append_chars ''abcdefgh'' ?big"
    by (rule expand_loop_plain) simp_all
  with cs bo have "append_chars cs ?big = append_chars ''abcdefgh'' ?big" by auto
  moreover have "written (append_chars cs ?big) = take 8 cs"
    using written_append_chars [OF bo, of cs] by simp
  moreover have "written (append_chars ''abcdefgh'' ?big) = ''abcdefgh''"
    using written_append_chars [OF bo, of "''abcdefgh''"] by simp
  ultimately have "take 8 cs = ''abcdefgh''" by simp
  then have "take 3 (take 8 cs) = ''abc''" by simp
  then have "take 3 cs = ''abc''" by simp
  with m have c: "c_str mem' = ''abc''" by (simp add: c_str_def)
  with n have "mem' ! 3 = NUL" by (simp add: eval_nat_numeral)
  with 1 e l c ok show ?thesis by simp
qed

text \<open>
  Claim C2.  A byte string \<open>S\<close> without backslash, percent sign and ESC (and, being a
  C string, without NUL), expanded with a NULL template context into a buffer larger
  than \<open>S\<close>, comes out unchanged, and the call succeeds.
\<close>

theorem expand_plain_identity:
  assumes "CHR 0x5C \<notin> set S" and "CHR ''%'' \<notin> set S" and "ESC \<notin> set S" and "NUL \<notin> set S"
    and "template_ctx ctx = None" and "length S < output_size" and "output_size \<le> length mem"
  shows "\<exists>mem'. lle_prompt_expand env (Some S) (Some mem) output_size (Some ctx) =
                  (LLE_SUCCESS, Some mem') \<and> c_str mem' = S"
proof -
  have n: "0 < output_size" using assms by simp
  let ?m = "eb_buf (expand_loop env ctx (c_str S) (buf_init (mem[0 := NUL]) output_size))"
  have "lle_prompt_expand env (Some S) (Some mem) output_size (Some ctx) = (LLE_SUCCESS, Some ?m)"
    using assms n by (simp add: lle_prompt_expand_def expand_prompt_escapes_def)
  moreover have "c_str ?m = S"
    using assms n
    by (simp add: c_str_NUL_free expand_loop_plain c_str_append_chars_init)
  ultimately show ?thesis by blast
qed

theorem expand_plain_identity_witness:
  "\<exists>mem'. lle_prompt_expand env_alice (Some ''abc'') (Some ''ZZZZ'') 4 (Some ctx_plain) =
            (LLE_SUCCESS, Some mem') \<and> c_str mem' = ''abc''"
  using expand_plain_identity [of "''abc''" ctx_plain 4 "''ZZZZ''" env_alice]
  by (simp add: ctx_plain_def)

definition csi_sequence :: "string \<Rightarrow> bool" where
  "csi_sequence E \<longleftrightarrow>
     (\<exists>ps fin. E = ESC # CHR ''['' # ps @ [fin] \<and>
        (\<forall>c \<in> set ps. c \<noteq> NUL \<and> byte c < 0x40) \<and> 0x40 \<le> byte fin \<and> byte fin \<le> 0x7E)"

lemma ansi_params_copy:
  "\<forall>c \<in> set ps. char_lt_0x40 sg c \<Longrightarrow> \<not> char_lt_0x40 sg fin \<Longrightarrow>
   ansi_params sg (ps @ fin # F) b = (fin # F, append_chars ps b)"
  by (induction ps arbitrary: b) simp_all

lemma byte_NUL [simp]: "byte NUL = 0"
  by (simp add: byte_def)

lemma expand_loop_csi:
  assumes "csi_sequence E"
  shows "expand_loop env ctx (E @ F) b = expand_loop env ctx F (append_chars E b)"
proof -
  from assms obtain ps fin where E: "E = ESC # CHR ''['' # ps @ [fin]"
    and ps: "\<forall>c \<in> set ps. c \<noteq> NUL \<and> byte c < 0x40"
    and fin: "0x40 \<le> byte fin" "byte fin \<le> 0x7E"
    unfolding csi_sequence_def by blast
  have 1: "\<forall>c \<in> set ps. char_lt_0x40 (char_is_signed env) c"
    using ps by (simp add: char_lt_0x40_def)
  have 2: "\<not> char_lt_0x40 (char_is_signed env) fin"
    using fin by (simp add: char_lt_0x40_def)
  have "expand_step env ctx ESC (CHR ''['' # ps @ fin # F) b = (F, append_chars E b)"
    by (simp add: expand_step_def Let_def ansi_params_copy [OF 1 2] E append_chars_append)
  then show ?thesis
    by (simp add: E expand_loop.simps(2))
qed

lemma csi_no_NUL: "csi_sequence E \<Longrightarrow> NUL \<notin> set E"
proof -
  assume "csi_sequence E"
  then obtain ps fin where E: "E = ESC # CHR ''['' # ps @ [fin]"
    and ps: "\<forall>c \<in> set ps. c \<noteq> NUL \<and> byte c < 0x40"
    and fin: "0x40 \<le> byte fin"
    unfolding csi_sequence_def by blast
  from fin have "fin \<noteq> NUL" by auto
  with ps show ?thesis by (auto simp: E)
qed

lemma csi_sequence_example: "csi_sequence (ESC # ''[1;31m'')"
  unfolding csi_sequence_def
  by (rule exI [of _ "''1;31''"], rule exI [of _ "CHR ''m''"]) (simp add: byte_def)

text \<open>
  Claim C3.  Let \<open>E\<close> be a CSI sequence: ESC, \<open>[\<close>, parameter bytes below \<open>0x40\<close> and a
  final byte in \<open>0x40..0x7E\<close>.  With a NULL template context, for every input \<open>F\<close>:
  expanding \<open>E + F\<close> into a buffer with \<open>length E\<close> more bytes of room gives \<open>E\<close>
  followed by the expansion of \<open>F\<close>, also when that expansion is cut short; and
  with one and the same buffer size the two agree whenever the expansion of \<open>E + F\<close>
  did not fill the buffer.
\<close>

theorem expand_csi_prefix:
  assumes "csi_sequence E" and "template_ctx ctx = None"
  shows "(0 < n \<and> n \<le> length mem \<and> n + length E \<le> length mem' \<longrightarrow>
            expand_output env ctx (E @ F) mem' (n + length E) =
              E @ expand_output env ctx F mem n) \<and>
         (n \<le> length mem \<and> length (expand_output env ctx (E @ F) mem n) + 1 < n \<longrightarrow>
            expand_output env ctx (E @ F) mem n = E @ expand_output env ctx F mem n)"
proof -
  have nn: "NUL \<notin> set E" by (rule csi_no_NUL [OF assms(1)])
  from emits_expand_loop [of env ctx "c_str F"] obtain cs where
    cs: "\<And>b. buf_ok b \<Longrightarrow> expand_loop env ctx (c_str F) b = append_chars cs b"
    unfolding emits_def by blast
  have out_F: "expand_output env ctx F m k = c_str (take (k - 1) cs)"
    if "0 < k" "k \<le> length m" for m k
    using that assms(2)
    by (simp add: expand_output_no_template cs buf_init_ok c_str_append_chars_init)
  have out_EF: "expand_output env ctx (E @ F) m k = c_str (take (k - 1) (E @ cs))"
    if "0 < k" "k \<le> length m" for m k
  proof -
    have ok: "buf_ok (buf_init (m[0 := NUL]) k)"
      using that by (simp add: buf_init_ok)
    have "expand_loop env ctx (E @ c_str F) (buf_init (m[0 := NUL]) k) =
          append_chars (E @ cs) (buf_init (m[0 := NUL]) k)"
      by (simp add: expand_loop_csi [OF assms(1)] cs append_chars_ok [OF ok] append_chars_append)
    then show ?thesis
      using that assms(2)
      by (simp add: expand_output_no_template c_str_append [OF nn] c_str_append_chars_init)
  qed
  have shift: "c_str (take (n + length E - 1) (E @ cs)) = E @ c_str (take (n - 1) cs)" if "0 < n"
  proof -
    have "take (n + length E - 1) (E @ cs) = E @ take (n - 1) cs"
      using that by simp
    then show ?thesis by (simp add: c_str_append [OF nn])
  qed
  have same: "c_str (take (n - 1) (E @ cs)) = E @ c_str (take (n - 1) cs)"
    if "length (c_str (take (n - 1) (E @ cs))) + 1 < n"
  proof -
    have t: "c_str (take k xs) = take k (c_str xs)" for k and xs :: string
      by (induction xs arbitrary: k) (auto simp: c_str_def take_Cons split: nat.split)
    have "length (take (n - 1) (E @ c_str cs)) + 1 < n"
      using that by (simp only: t c_str_append [OF nn])
    then have le: "length E + length (c_str cs) \<le> n - 1"
      by (simp only: length_take length_append)
    have "c_str (take (n - 1) (E @ cs)) = take (n - 1) (E @ c_str cs)"
      by (simp only: t c_str_append [OF nn])
    also have "\<dots> = E @ c_str cs"
      using le by (intro take_all) simp
    also have "c_str cs = take (n - 1) (c_str cs)"
      using le by (intro take_all [symmetric]) simp
    also have "\<dots> = c_str (take (n - 1) cs)"
      by (simp only: t)
    finally show ?thesis .
  qed
  show ?thesis
  proof (intro conjI impI)
    assume "0 < n \<and> n \<le> length mem \<and> n + length E \<le> length mem'"
    then show "expand_output env ctx (E @ F) mem' (n + length E) = E @ expand_output env ctx F mem n"
      using out_F [of n mem] out_EF [of "n + length E" mem'] shift by simp
  next
    assume a: "n \<le> length mem \<and> length (expand_output env ctx (E @ F) mem n) + 1 < n"
    then have "0 < n" by simp
    with a show "expand_output env ctx (E @ F) mem n = E @ expand_output env ctx F mem n"
      using out_F [of n mem] out_EF [of n mem] same by simp
  qed
qed

theorem expand_csi_prefix_witness:
  "csi_sequence (ESC # ''[1;31m'') \<and>
   expand_output env_alice ctx_plain ((ESC # ''[1;31m'') @ ''%%'') ''ZZZZZZZZZZZZ'' (4 + 7) =
     (ESC # ''[1;31m'') @ expand_output env_alice ctx_plain ''%%'' ''ZZZZ'' 4 \<and>
   expand_output env_alice ctx_plain ((ESC # ''[1;31m'') @ ''%%'') ''ZZZZZZZZZZZZ'' 12 =
     (ESC # ''[1;31m'') @ expand_output env_alice ctx_plain ''%%'' ''ZZZZZZZZZZZZ'' 12"
proof -
  have t: "template_ctx ctx_plain = None"
    by (simp add: ctx_plain_def)
  have e: "expand_output env_alice ctx_plain ((ESC # ''[1;31m'') @ ''%%'') ''ZZZZZZZZZZZZ'' 12 =
      ESC # ''[1;31m%''"
    by code_simp
  have 1: "expand_output env_alice ctx_plain ((ESC # ''[1;31m'') @ ''%%'') ''ZZZZZZZZZZZZ''
             (4 + length (ESC # ''[1;31m'')) =
           (ESC # ''[1;31m'') @ expand_output env_alice ctx_plain ''%%'' ''ZZZZ'' 4"
    using expand_csi_prefix [OF csi_sequence_example t, of 4 "''ZZZZ''" "''ZZZZZZZZZZZZ''"
        env_alice "''%%''"]
    by simp
  have 2: "expand_output env_alice ctx_plain ((ESC # ''[1;31m'') @ ''%%'') ''ZZZZZZZZZZZZ'' 12 =
     (ESC # ''[1;31m'') @ expand_output env_alice ctx_plain ''%%'' ''ZZZZZZZZZZZZ'' 12"
    using expand_csi_prefix [OF csi_sequence_example t, of 12 "''ZZZZZZZZZZZZ''" "''ZZZZZZZZZZZZ''"
        env_alice "''%%''"] e
    by simp
  from 1 2 csi_sequence_example show ?thesis by simp
qed

text \<open>
  Claim C5, as stated: the byte written for \<open>\$\<close> is \<open>#\<close> when the effective uid is 0.
  The source asks \<open>getuid()\<close>, the real uid, here and wherever else it looks at the
  user.  In a process whose effective uid is 0 and whose real uid is not, \<open>\$\<close> gives
  \<open>$\<close>.
\<close>

theorem bash_dollar_effective_uid_counterexample:
  "geteuid env_setuid = 0 \<and>
   expand_output env_setuid ctx_plain [CHR 0x5C, CHR ''$''] ''ZZZZ'' 4 = ''$''"
  by code_simp

lemma expand_loop_plain_prefix:
  "CHR 0x5C \<notin> set S \<Longrightarrow> CHR ''%'' \<notin> set S \<Longrightarrow> ESC \<notin> set S \<Longrightarrow>
   expand_loop env ctx (S @ q) b = expand_loop env ctx q (append_chars S b)"
  by (induction S arbitrary: b) (auto simp: expand_loop.simps(2) expand_step_def)

text \<open>
  Claim C5, amended: wherever the scanner meets the two bytes \<open>\$\<close> it writes one byte,
  \<open>#\<close> when the real uid of the process is 0 and \<open>$\<close> otherwise, and goes on behind
  them.  So a format \<open>S\$T\<close> with plain bytes \<open>S\<close> expands to \<open>S\<close>, that byte and the
  expansion of \<open>T\<close>; and the expansion of the two bytes \<open>\$\<close> alone is that one byte.
\<close>

theorem bash_dollar_real_uid:
  "expand_step env ctx (CHR 0x5C) (CHR ''$'' # p) b =
     (p, buf_append_char b (if getuid env = 0 then CHR ''#'' else CHR ''$'')) \<and>
   (template_ctx ctx = None \<and> CHR 0x5C \<notin> set S \<and> CHR ''%'' \<notin> set S \<and> ESC \<notin> set S \<and>
    NUL \<notin> set S \<and> 0 < n \<and> n \<le> length mem \<and> n + length S + 1 \<le> length mem' \<longrightarrow>
      expand_output env ctx (S @ CHR 0x5C # CHR ''$'' # T) mem' (n + length S + 1) =
        S @ (if getuid env = 0 then CHR ''#'' else CHR ''$'') # expand_output env ctx T mem n) \<and>
   (template_ctx ctx = None \<and> 2 \<le> n \<and> n \<le> length mem \<longrightarrow>
      expand_output env ctx [CHR 0x5C, CHR ''$''] mem n =
        [if getuid env = 0 then CHR ''#'' else CHR ''$''])"
proof -
  define x where "x = (if getuid env = 0 then CHR ''#'' else CHR ''$'')"
  have x: "x \<noteq> NUL" by (simp add: x_def)
  have step: "expand_step env ctx (CHR 0x5C) (CHR ''$'' # p) b = (p, buf_append_char b x)" for p b
    by (simp add: expand_step_def bash_escape_def x_def)
  have loop: "expand_loop env ctx (CHR 0x5C # CHR ''$'' # p) b =
      expand_loop env ctx p (buf_append_char b x)" for p b
    by (simp add: expand_loop.simps(2) step)
  have ctx_out: "expand_output env ctx (S @ CHR 0x5C # CHR ''$'' # T) mem' (n + length S + 1) =
        S @ x # expand_output env ctx T mem n"
    if a: "template_ctx ctx = None" "CHR 0x5C \<notin> set S" "CHR ''%'' \<notin> set S" "ESC \<notin> set S"
      "NUL \<notin> set S" "0 < n" "n \<le> length mem" "n + length S + 1 \<le> length mem'"
  proof -
    from emits_expand_loop [of env ctx "c_str T"] obtain cs where
      cs: "\<And>b. buf_ok b \<Longrightarrow> expand_loop env ctx (c_str T) b = append_chars cs b"
      unfolding emits_def by blast
    have out_T: "expand_output env ctx T mem n = c_str (take (n - 1) cs)"
      using a by (simp add: expand_output_no_template cs buf_init_ok c_str_append_chars_init)
    let ?b = "buf_init (mem'[0 := NUL]) (n + length S + 1)"
    have ok: "buf_ok ?b" using a by (simp add: buf_init_ok)
    have cstr: "c_str (S @ CHR 0x5C # CHR ''$'' # T) = S @ CHR 0x5C # CHR ''$'' # c_str T"
      by (simp add: c_str_append [OF a(5)]) (simp add: c_str_def)
    have "expand_loop env ctx (S @ CHR 0x5C # CHR ''$'' # c_str T) ?b =
        expand_loop env ctx (c_str T) (buf_append_char (append_chars S ?b) x)"
      by (simp add: expand_loop_plain_prefix [OF a(2,3,4)] loop)
    also have "\<dots> = append_chars cs (append_chars [x] (append_chars S ?b))"
      using cs [OF append_chars_ok [OF append_chars_ok [OF ok, of S], of "[x]"]] by simp
    also have "\<dots> = append_chars (S @ [x] @ cs) ?b"
      by (simp only: append_chars_append)
    finally have "expand_output env ctx (S @ CHR 0x5C # CHR ''$'' # T) mem' (n + length S + 1) =
        c_str (take (n + length S + 1 - 1) (S @ [x] @ cs))"
      using a by (simp only: expand_output_no_template cstr)
                 (simp add: c_str_append_chars_init del: append_chars.simps)
    also have "take (n + length S + 1 - 1) (S @ [x] @ cs) = (S @ [x]) @ take (n - 1) cs"
      using a(6) by (cases n) simp_all
    also have "c_str \<dots> = (S @ [x]) @ c_str (take (n - 1) cs)"
      using a(5) x by (intro c_str_append) simp
    finally show ?thesis by (simp add: out_T)
  qed
  have two: "expand_output env ctx [CHR 0x5C, CHR ''$''] mem n = [x]"
    if a: "template_ctx ctx = None" "2 \<le> n" "n \<le> length mem"
  proof -
    let ?b = "buf_init (mem[0 := NUL]) n"
    have "expand_loop env ctx [CHR 0x5C, CHR ''$''] ?b = append_chars [x] ?b"
      by (simp add: loop)
    moreover have "c_str (eb_buf (append_chars [x] ?b)) = c_str (take (n - 1) [x])"
      by (rule c_str_append_chars_init) (use a in simp_all)
    moreover have "take (n - 1) [x] = [x]"
      using a by simp
    ultimately have "c_str (eb_buf (expand_loop env ctx [CHR 0x5C, CHR ''$''] ?b)) = [x]"
      using x by (simp add: c_str_def)
    moreover have "c_str [CHR 0x5C, CHR ''$''] = [CHR 0x5C, CHR ''$'']"
      by (simp add: c_str_def)
    ultimately show ?thesis
      using a by (simp add: expand_output_no_template)
  qed
  from step ctx_out two show ?thesis unfolding x_def by blast
qed

theorem bash_dollar_real_uid_witness:
  "expand_output env_alice ctx_plain [CHR 0x5C, CHR ''$''] ''ZZZZ'' 4 = ''$'' \<and>
   expand_output (env_alice\<lparr>getuid := 0\<rparr>) ctx_plain [CHR 0x5C, CHR ''$''] ''ZZZZ'' 4 = ''#'' \<and>
   expand_output env_alice ctx_plain (''a'' @ CHR 0x5C # CHR ''$'' # '' '') ''ZZZZZZ'' 4 = ''a$ '' \<and>
   expand_output (env_alice\<lparr>getuid := 0\<rparr>) ctx_plain (''a'' @ CHR 0x5C # CHR ''$'' # '' '')
     ''ZZZZZZ'' 4 = ''a# ''"
proof -
  have t: "template_ctx ctx_plain = None" by (simp add: ctx_plain_def)
  have u: "getuid env_alice \<noteq> 0" "getuid (env_alice\<lparr>getuid := 0\<rparr>) = 0"
    by (simp_all add: env_alice_def)
  have sp: "expand_output env ctx_plain '' '' ''ZZZZ'' 2 = '' ''" for env
    by (simp add: expand_output_no_template t c_str_def expand_loop.simps(2) expand_step_def
        buf_init_def buf_append_char_def)
  have 1: "expand_output env_alice ctx_plain [CHR 0x5C, CHR ''$''] ''ZZZZ'' 4 = ''$''"
    using bash_dollar_real_uid [of env_alice ctx_plain "[]" "buf_init ''ZZZZ'' 4" "[]" 4 "''ZZZZ''" "''ZZZZ''" "[]",
        THEN conjunct2, THEN conjunct2] t u by simp
  have 2: "expand_output (env_alice\<lparr>getuid := 0\<rparr>) ctx_plain [CHR 0x5C, CHR ''$''] ''ZZZZ'' 4 = ''#''"
    using bash_dollar_real_uid [of "env_alice\<lparr>getuid := 0\<rparr>" ctx_plain "[]" "buf_init ''ZZZZ'' 4" "[]" 4 "''ZZZZ''" "''ZZZZ''" "[]",
        THEN conjunct2, THEN conjunct2] t u by simp
  have 3: "expand_output env_alice ctx_plain (''a'' @ CHR 0x5C # CHR ''$'' # '' '') ''ZZZZZZ'' 4 = ''a$ ''"
    using bash_dollar_real_uid [of env_alice ctx_plain "[]" "buf_init ''ZZZZ'' 4" "''a''" 2 "''ZZZZ''" "''ZZZZZZ''" "'' ''",
        THEN conjunct2, THEN conjunct1] t u sp by simp
  have 4: "expand_output (env_alice\<lparr>getuid := 0\<rparr>) ctx_plain (''a'' @ CHR 0x5C # CHR ''$'' # '' '')
     ''ZZZZZZ'' 4 = ''a# ''"
    using bash_dollar_real_uid [of "env_alice\<lparr>getuid := 0\<rparr>" ctx_plain "[]" "buf_init ''ZZZZ'' 4" "''a''" 2 "''ZZZZ''" "''ZZZZZZ''" "'' ''",
        THEN conjunct2, THEN conjunct1] t u sp by simp
  from 1 2 3 4 show ?thesis by blast
qed

section \<open>Colour specifications: what \<open>emit_color\<close> writes\<close>

text \<open>
  The three recognised forms of a colour spec: \<open>#\<close> and six hexadecimal digits, a
  decimal integer from 0 to 255, or one of the nine names.  The lemmas below show what
  \<open>emit_color\<close> writes for each of them.
\<close>

definition claimed_color_form :: "string \<Rightarrow> bool" where
  "claimed_color_form spec \<longleftrightarrow>
     (case spec of
        c # h \<Rightarrow> c = CHR ''#'' \<and> length h = 6 \<and> list_all (\<lambda>x. hex_val x \<noteq> None) h
      | [] \<Rightarrow> False) \<or>
     (spec \<noteq> [] \<and> list_all isdigit spec \<and> digits_val spec \<le> 255) \<or>
     spec \<in> set (map fst named)"

text \<open>A buffer of 20 bytes for the concrete instances.\<close>

definition buf_example :: expand_buf where
  "buf_example = buf_init ''ZZZZZZZZZZZZZZZZZZZZ'' 20"

lemma dec_nat_length: "n < 1000 \<Longrightarrow> length (dec_nat n) \<le> 3"
  by (subst dec_nat.simps, subst dec_nat.simps, subst dec_nat.simps) (simp add: div_less_iff_less_mult)

lemma printf_d_nat: "printf_d (int n) = dec_nat n"
  by (simp add: printf_d_def)

lemma hex_val_range: "hex_val c = Some v \<Longrightarrow> v < 16"
  by (auto simp: hex_val_def split: if_splits)

lemma hex_val_not_space: "hex_val c = Some v \<Longrightarrow> \<not> isspace c"
  by (auto simp: hex_val_def isspace_def byte_def split: if_splits)

lemma scanf_x_two_digits:
  assumes "hex_val a = Some x" and "hex_val b = Some y"
  shows "scanf_x 2 (a # b # rest) = Some (16 * x + y, rest)"
proof -
  have sp: "\<not> isspace a" by (rule hex_val_not_space [OF assms(1)])
  have sg: "a \<noteq> CHR ''-''" "a \<noteq> CHR ''+''"
    using assms(1) by (auto simp: hex_val_def byte_def split: if_splits)
  have nx: "b \<noteq> CHR ''x''" "b \<noteq> CHR ''X''"
    using assms(2) by (auto simp: hex_val_def byte_def split: if_splits)
  have z: "a = CHR ''0'' \<Longrightarrow> x = 0"
    using assms(1) by (auto simp: hex_val_def byte_def split: if_splits)
  have r: "scan_hex_digits 0 n v rest = (n, v, rest)" for n v
    by (cases rest) (simp_all split: option.split)
  have b: "16 * x + y < 2 ^ 32"
    using hex_val_range [OF assms(1)] hex_val_range [OF assms(2)] by simp
  show ?thesis
  proof (cases "a = CHR ''0''")
    case True
    then show ?thesis
      using sp sg nx z assms b r
      by (simp add: scanf_x_def Let_def)
  next
    case False
    then show ?thesis
      using sp sg nx assms b r
      by (simp add: scanf_x_def Let_def numeral_2_eq_2)
  qed
qed

lemma hex_color_six_digits:
  assumes "hex_val h1 = Some r1" "hex_val h2 = Some r2" "hex_val h3 = Some g1"
    "hex_val h4 = Some g2" "hex_val h5 = Some b1" "hex_val h6 = Some b2"
  shows "hex_color (CHR ''#'' # [h1, h2, h3, h4, h5, h6]) =
           Some (16 * r1 + r2, 16 * g1 + g2, 16 * b1 + b2)"
  using assms by (simp add: hex_color_def sscanf_2x2x2x_def scanf_x_two_digits)

lemma isdigit_not_space: "isdigit c \<Longrightarrow> \<not> isspace c"
  by (auto simp: isdigit_def isspace_def byte_def)

lemma isdigit_not_sign: "isdigit c \<Longrightarrow> c \<noteq> CHR ''-'' \<and> c \<noteq> CHR ''+'' \<and> c \<noteq> CHR ''#''"
  by (auto simp: isdigit_def byte_def)

lemma strtol10_digits:
  assumes "spec \<noteq> []" and "list_all isdigit spec" and "digits_val spec \<le> 255"
  shows "strtol10 spec = (int (digits_val spec), [])"
proof -
  obtain c r where spec: "spec = c # r" using assms(1) by (cases spec) auto
  have c: "isdigit c" using assms(2) spec by simp
  have 1: "dropWhile isspace spec = spec"
    using isdigit_not_space [OF c] spec by simp
  have 2: "takeWhile isdigit spec = spec" "dropWhile isdigit spec = []"
    using assms(2) by (simp_all add: list_all_iff)
  show ?thesis
    using 1 2 isdigit_not_sign [OF c] assms(3) spec
    by (simp add: strtol10_def Let_def)
qed

lemma numeric_color_digits:
  assumes "spec \<noteq> []" and "list_all isdigit spec" and "digits_val spec \<le> 255"
  shows "numeric_color spec = Some (int (digits_val spec))"
  using assms by (simp add: numeric_color_def strtol10_digits)

lemma hex_color_digits:
  assumes "spec \<noteq> []" and "list_all isdigit spec"
  shows "hex_color spec = None"
proof -
  obtain c r where spec: "spec = c # r" using assms(1) by (cases spec) auto
  have c: "isdigit c" using assms(2) spec by simp
  show ?thesis
    using isdigit_not_sign [OF c] spec by (simp add: hex_color_def)
qed

lemma named_cases:
  "map_of named spec = Some code \<Longrightarrow>
   spec \<in> {''black'', ''red'', ''green'', ''yellow'', ''blue'', ''magenta'', ''cyan'', ''white'',
            ''default''}"
  by (simp add: named_def split: if_splits)

lemma named_not_hex: "map_of named spec = Some code \<Longrightarrow> hex_color spec = None"
  by (drule named_cases) (auto simp: hex_color_def)

lemma strtol10_letter:
  "\<not> isspace c \<Longrightarrow> \<not> isdigit c \<Longrightarrow> c \<noteq> CHR ''-'' \<Longrightarrow> c \<noteq> CHR ''+'' \<Longrightarrow>
   strtol10 (c # r) = (0, c # r)"
  by (simp add: strtol10_def Let_def)

lemma named_not_numeric: "map_of named spec = Some code \<Longrightarrow> numeric_color spec = None"
  by (drule named_cases)
     (auto simp: numeric_color_def strtol10_letter isspace_def isdigit_def byte_def)

lemma snprintf_fits: "length s < n \<Longrightarrow> snprintf n s = s"
  by (simp add: snprintf_def)

lemma printf_d_length: "0 \<le> i \<Longrightarrow> i < 1000 \<Longrightarrow> length (printf_d i) \<le> 3"
  using dec_nat_length [of "nat i"] by (simp add: printf_d_def)

lemma printf_d_38_48: "printf_d (if fg then 38 else 48) = (if fg then ''38'' else ''48'')"
  by (simp add: printf_d_def dec_nat.simps digit_char_def char_of_eq_iff)

lemma cube_index_range: "c \<le> 255 \<Longrightarrow> 0 \<le> cube_index c \<and> cube_index c \<le> 5"
  by (auto simp: cube_index_def)

lemma int32_small: "0 \<le> i \<Longrightarrow> i < 1000 \<Longrightarrow> int32 i = i"
  by (simp add: int32_def)

text \<open>
  A component read with a minus sign is the one case that leaves the range: \<open>%2x\<close>
  reads \<open>-1\<close> as \<open>2 ^ 32 - 1\<close>, and the index wraps.
\<close>

lemma int32_negative_component:
  "hex_color ''#-10000'' = Some (4294967295, 0, 0) \<and>
   int32 (16 + 36 * cube_index 4294967295 + 6 * cube_index 0 + cube_index 0) = - 429496764"
  by (simp add: int32_def cube_index_def hex_color_def sscanf_2x2x2x_def scanf_x_def isspace_def
      byte_def hex_val_def)

lemma emit_color_depth0: "emit_color b spec 0 fg = b"
  by (simp add: emit_color_def)

lemma emit_color_hex:
  assumes h: "hex_val h1 = Some r1" "hex_val h2 = Some r2" "hex_val h3 = Some g1"
    "hex_val h4 = Some g2" "hex_val h5 = Some b1" "hex_val h6 = Some b2"
  defines "R \<equiv> 16 * r1 + r2" and "G \<equiv> 16 * g1 + g2" and "B \<equiv> 16 * b1 + b2"
  shows "3 \<le> d \<Longrightarrow> emit_color b (CHR ''#'' # [h1, h2, h3, h4, h5, h6]) d fg =
           buf_append_str b (ESC # ''['' @ (if fg then ''38'' else ''48'') @ '';2;'' @
                             dec_nat R @ '';'' @ dec_nat G @ '';'' @ dec_nat B @ ''m'')"
    and "d = 2 \<Longrightarrow> emit_color b (CHR ''#'' # [h1, h2, h3, h4, h5, h6]) d fg =
           buf_append_str b (ESC # ''['' @ (if fg then ''38'' else ''48'') @ '';5;'' @
                             printf_d (16 + 36 * cube_index R + 6 * cube_index G + cube_index B) @
                             ''m'')"
    and "d = 1 \<Longrightarrow> emit_color b (CHR ''#'' # [h1, h2, h3, h4, h5, h6]) d fg = b"
proof -
  have hc: "hex_color (CHR ''#'' # [h1, h2, h3, h4, h5, h6]) = Some (R, G, B)"
    unfolding R_def G_def B_def by (rule hex_color_six_digits [OF h])
  have rng: "R \<le> 255" "G \<le> 255" "B \<le> 255"
    using h [THEN hex_val_range] by (simp_all add: R_def G_def B_def)
  have l: "length (dec_nat R) \<le> 3" "length (dec_nat G) \<le> 3" "length (dec_nat B) \<le> 3"
    using rng by (simp_all add: dec_nat_length)
  have ix: "0 \<le> 16 + 36 * cube_index R + 6 * cube_index G + cube_index B \<and>
        16 + 36 * cube_index R + 6 * cube_index G + cube_index B < 1000"
    using cube_index_range [OF rng(1)] cube_index_range [OF rng(2)] cube_index_range [OF rng(3)]
    by simp
  then have li: "length (printf_d (16 + 36 * cube_index R + 6 * cube_index G + cube_index B)) \<le> 3"
    by (simp add: printf_d_length)
  from ix have w: "int32 (16 + 36 * cube_index R + 6 * cube_index G + cube_index B) =
      16 + 36 * cube_index R + 6 * cube_index G + cube_index B"
    by (simp add: int32_small)
  show "3 \<le> d \<Longrightarrow> emit_color b (CHR ''#'' # [h1, h2, h3, h4, h5, h6]) d fg =
           buf_append_str b (ESC # ''['' @ (if fg then ''38'' else ''48'') @ '';2;'' @
                             dec_nat R @ '';'' @ dec_nat G @ '';'' @ dec_nat B @ ''m'')"
    using l by (simp add: emit_color_def hc printf_d_38_48 snprintf_fits)
  show "d = 2 \<Longrightarrow> emit_color b (CHR ''#'' # [h1, h2, h3, h4, h5, h6]) d fg =
           buf_append_str b (ESC # ''['' @ (if fg then ''38'' else ''48'') @ '';5;'' @
                             printf_d (16 + 36 * cube_index R + 6 * cube_index G + cube_index B) @
                             ''m'')"
    using li by (simp add: emit_color_def hc printf_d_38_48 snprintf_fits Let_def w)
  show "d = 1 \<Longrightarrow> emit_color b (CHR ''#'' # [h1, h2, h3, h4, h5, h6]) d fg = b"
    by (simp add: emit_color_def hc)
qed

lemma emit_color_decimal:
  assumes "spec \<noteq> []" and "list_all isdigit spec" and "digits_val spec \<le> 255"
  shows "2 \<le> d \<Longrightarrow> emit_color b spec d fg =
           buf_append_str b (ESC # ''['' @ (if fg then ''38'' else ''48'') @ '';5;'' @
                             dec_nat (digits_val spec) @ ''m'')"
    and "d = 1 \<Longrightarrow> emit_color b spec d fg =
           buf_append_str b (ESC # ''['' @
                             dec_nat ((if fg then 30 else 40) + digits_val spec mod 8) @ ''m'')"
proof -
  have hc: "hex_color spec = None" by (rule hex_color_digits [OF assms(1,2)])
  have nc: "numeric_color spec = Some (int (digits_val spec))"
    by (rule numeric_color_digits [OF assms])
  have l: "length (dec_nat (digits_val spec)) \<le> 3"
    using assms(3) by (simp add: dec_nat_length)
  have m: "(if fg then 30 else 40) + int (digits_val spec) mod 8 =
           int ((if fg then 30 else 40) + digits_val spec mod 8)"
    by (simp add: zmod_int)
  have l2: "length (dec_nat ((if fg then 30 else 40) + digits_val spec mod 8)) \<le> 3"
  proof (rule dec_nat_length)
    have aux: "(if fg then 30 else 40) + m < (1000::nat)" if "m < 8" for m
      using that by simp
    show "(if fg then 30 else 40) + digits_val spec mod 8 < 1000"
      by (rule aux) simp
  qed
  show "2 \<le> d \<Longrightarrow> emit_color b spec d fg =
           buf_append_str b (ESC # ''['' @ (if fg then ''38'' else ''48'') @ '';5;'' @
                             dec_nat (digits_val spec) @ ''m'')"
    using l by (simp add: emit_color_def hc nc printf_d_38_48 printf_d_nat snprintf_fits)
  show "d = 1 \<Longrightarrow> emit_color b spec d fg =
           buf_append_str b (ESC # ''['' @
                             dec_nat ((if fg then 30 else 40) + digits_val spec mod 8) @ ''m'')"
    using l2 by (simp add: emit_color_def hc nc Let_def m printf_d_nat snprintf_fits
        del: of_nat_add of_nat_mod)
qed

lemma emit_color_named:
  assumes "map_of named spec = Some code" and "d \<noteq> 0"
  shows "emit_color b spec d fg =
           buf_append_str b (ESC # ''['' @ printf_d ((if fg then 30 else 40) + code) @ ''m'')"
proof -
  have "code \<in> {0, 1, 2, 3, 4, 5, 6, 7, 9}"
    using assms(1) by (auto simp: named_def split: if_splits)
  then have "0 \<le> (if fg then 30 else 40) + code \<and> (if fg then 30 else 40) + code < 1000"
    by auto
  then have "length (printf_d ((if fg then 30 else 40) + code)) \<le> 3"
    by (simp add: printf_d_length)
  then show ?thesis
    using assms
    by (simp add: emit_color_def named_not_hex [OF assms(1)] named_not_numeric [OF assms(1)]
        snprintf_fits)
qed

text \<open>
  Claim C4, part (4): a spec that has none of the three forms writes no bytes.  The
  seven bytes \<open># 1 2 3\<close> are not \<open>#\<close> with six hexadecimal digits, not a decimal
  integer and not a colour name.  They start with \<open>#\<close> and have length 7, and each
  \<open>%2x\<close> of \<open>sscanf\<close> skips the blank before its digit, so the three conversions
  succeed with 1, 2 and 3: at depth 3 the format \<open>%F{# 1 2 3}x\<close> expands to the
  true-colour sequence for (1, 2, 3) and the \<open>x\<close>, where the claim has the \<open>x\<close> alone.
\<close>

theorem zsh_color_unrecognised_spec_writes:
  "\<not> claimed_color_form ''# 1 2 3'' \<and>
   hex_color ''# 1 2 3'' = Some (1, 2, 3) \<and>
   color_depth ctx_plain = 3 \<and>
   lle_prompt_expand env_alice (Some ''%F{# 1 2 3}x'') (Some ''ZZZZZZZZZZZZZZZZZZZZ'') 20
     (Some ctx_plain) =
     (LLE_SUCCESS, Some (ESC # ''[38;2;1;2;3mx'' @ [NUL, CHR ''Z'', CHR ''Z'', CHR ''Z'', CHR ''Z'', CHR ''Z'']))"
proof -
  have 1: "\<not> claimed_color_form ''# 1 2 3''"
    by (simp add: claimed_color_form_def named_def isdigit_def byte_def hex_val_def)
  have 2: "hex_color ''# 1 2 3'' = Some (1, 2, 3)"
    by (simp add: hex_color_def sscanf_2x2x2x_def scanf_x_def isspace_def byte_def hex_val_def)
  have dn: "dec_nat (Suc 0) = ''1''" "dec_nat 2 = ''2''" "dec_nat 3 = ''3''" "dec_nat 38 = ''38''"
    by (simp_all add: dec_nat.simps digit_char_def char_of_eq_iff)
  have 3: "emit_color b ''# 1 2 3'' 3 True = buf_append_str b (ESC # ''[38;2;1;2;3m'')" for b
    by (simp add: emit_color_def 2 snprintf_def printf_d_def dn)
  have d: "color_depth ctx_plain = 3" and t: "template_ctx ctx_plain = None"
    by (simp_all add: ctx_plain_def)
  have 4: "expand_step env_alice ctx_plain (CHR ''%'') ''F{# 1 2 3}x'' b =
      (''x'', buf_append_str b (ESC # ''[38;2;1;2;3m''))" for b
    by (simp add: expand_step_def zsh_escape_def brace_arg_def d 3)
  have 5: "expand_loop env_alice ctx_plain ''%F{# 1 2 3}x'' b =
      buf_append_char (buf_append_str b (ESC # ''[38;2;1;2;3m'')) (CHR ''x'')" for b
    by (simp add: expand_loop.simps(2) 4) (simp add: expand_step_def)
  have "lle_prompt_expand env_alice (Some ''%F{# 1 2 3}x'') (Some ''ZZZZZZZZZZZZZZZZZZZZ'') 20
     (Some ctx_plain) =
     (LLE_SUCCESS, Some (ESC # ''[38;2;1;2;3mx'' @ [NUL, CHR ''Z'', CHR ''Z'', CHR ''Z'', CHR ''Z'', CHR ''Z'']))"
    by (simp add: lle_prompt_expand_def t expand_prompt_escapes_def c_str_def 5 buf_init_def
        buf_append_str_def buf_append_char_def)
  with 1 2 d show ?thesis by simp
qed

section \<open>The timed subprocess runner (git_command.c)\<close>

text \<open>
  The runner is a sequence of system calls.  The model threads an \<open>os_state\<close> through
  them: \<open>errno\<close>, the answers the operating system is going to give, and a log of the
  calls made with the arguments that matter.  The calls made once have one answer each;
  \<open>read\<close> and \<open>waitpid\<close> are called in loops and take their answers from lists, a
  \<open>read\<close> answer being a function of the byte count asked for.  When a list is used up
  the call has not returned yet: the run is \<open>Blocked\<close>.
\<close>

datatype wstatus = WEXITED nat | WSIGNALED nat | WSTOPPED nat

definition WIFEXITED :: "wstatus \<Rightarrow> bool" where
  "WIFEXITED st = (case st of WEXITED c \<Rightarrow> True | _ \<Rightarrow> False)"

definition WEXITSTATUS :: "wstatus \<Rightarrow> int" where
  "WEXITSTATUS st = (case st of WEXITED c \<Rightarrow> int (c mod 256) | _ \<Rightarrow> 0)"

datatype signal = SIGTERM | SIGKILL

datatype syscall =
    SYS_pipe
  | SYS_fork
  | SYS_close_read
  | SYS_close_write
  | SYS_kill signal
  | SYS_select bool int int
  | SYS_read nat
  | SYS_waitpid bool

definition EINTR :: nat where
  "EINTR = 4"

record os_state =
  errno :: nat
  pipe_ret :: int
  fork_ret :: int
  dup2_ret :: int
  execl_fails :: bool
  select_ret :: int
  select_errno :: nat
  reads :: "(nat \<Rightarrow> string + nat) list"
  waits :: "(int \<times> nat \<times> wstatus) list"
  syslog :: "syscall list"

definition sys :: "syscall \<Rightarrow> os_state \<Rightarrow> os_state" where
  "sys c os = os\<lparr>syslog := syslog os @ [c]\<rparr>"

record git_cmd_result =
  exit_status :: int
  timed_out :: bool

datatype run_end = Returned git_cmd_result | Child_execs | Child_exits nat | Blocked

definition GIT_CMD_SYNC_TIMEOUT_MS :: "32 word" where
  "GIT_CMD_SYNC_TIMEOUT_MS = 3000"

text \<open>
  \<open>read(fd, dst, count)\<close>: the next answer, cut to \<open>count\<close> bytes, or \<open>-1\<close> with
  \<open>errno\<close> set; \<open>None\<close> when no answer is left.
\<close>

definition sys_read :: "nat \<Rightarrow> os_state \<Rightarrow> (int \<times> string \<times> os_state) option" where
  "sys_read count os =
     (case reads os of
        [] \<Rightarrow> None
      | r # rs \<Rightarrow>
          (case r count of
             Inl d \<Rightarrow> Some (int (length (take count d)), take count d,
                             sys (SYS_read count) (os\<lparr>reads := rs\<rparr>))
           | Inr e \<Rightarrow> Some (- 1, [], sys (SYS_read count) (os\<lparr>reads := rs, errno := e\<rparr>))))"

definition sys_waitpid :: "bool \<Rightarrow> os_state \<Rightarrow> (int \<times> wstatus \<times> os_state) option" where
  "sys_waitpid nohang os =
     (case waits os of
        [] \<Rightarrow> None
      | (ret, e, st) # ws \<Rightarrow>
          Some (ret, st,
                sys (SYS_waitpid nohang) (os\<lparr>waits := ws, errno := (if ret < 0 then e else errno os)\<rparr>)))"

lemma sys_read_shorter:
  "sys_read count os = Some (n, d, os') \<Longrightarrow> length (reads os') < length (reads os)"
  by (auto simp: sys_read_def sys_def split: list.splits sum.splits)

lemma sys_waitpid_shorter:
  "sys_waitpid nohang os = Some (ret, st, os') \<Longrightarrow> length (waits os') < length (waits os)"
  by (auto simp: sys_waitpid_def sys_def split: list.splits)

text \<open>The loop of \<open>read_all_available\<close> for a NULL or empty buffer: drain without storing.\<close>

function drain_unstored :: "os_state \<Rightarrow> os_state option" where
  "drain_unstored os =
     (case sys_read 256 os of
        None \<Rightarrow> None
      | Some (n, d, os') \<Rightarrow>
          if n > 0 then drain_unstored os'
          else if n = 0 then Some os'
          else if errno os' = EINTR then drain_unstored os'
          else Some os')"
  by pat_completeness auto
termination
  by (relation "measure (\<lambda>os. length (reads os))") (auto dest: sys_read_shorter)

text \<open>The inner loop that drains what does not fit: it ends on \<open>n <= 0 && errno != EINTR\<close>.\<close>

function drain_full :: "os_state \<Rightarrow> os_state option" where
  "drain_full os =
     (case sys_read 256 os of
        None \<Rightarrow> None
      | Some (n, d, os') \<Rightarrow>
          if n \<le> 0 \<and> errno os' \<noteq> EINTR then Some os' else drain_full os')"
  by pat_completeness auto
termination
  by (relation "measure (\<lambda>os. length (reads os))") (auto dest: sys_read_shorter)

text \<open>
  The storing loop: \<open>buf\<close> is the caller's array, \<open>pos\<close> the bytes stored so far.
  The result is the array (terminator not yet written), \<open>pos\<close> and the state.
\<close>

function read_stored :: "char list \<Rightarrow> nat \<Rightarrow> nat \<Rightarrow> os_state \<Rightarrow> (char list \<times> nat \<times> os_state) option" where
  "read_stored buf buf_size pos os =
     (let remaining = buf_size - 1 - pos
      in if remaining = 0
         then (case drain_full os of None \<Rightarrow> None | Some os' \<Rightarrow> Some (buf, pos, os'))
         else
           (case sys_read remaining os of
              None \<Rightarrow> None
            | Some (n, d, os') \<Rightarrow>
                if n > 0
                then read_stored (take pos buf @ d @ drop (pos + length d) buf) buf_size
                       (pos + length d) os'
                else if n = 0 then Some (buf, pos, os')
                else if errno os' = EINTR then read_stored buf buf_size pos os'
                else Some (buf, pos, os')))"
  by pat_completeness auto
termination
  by (relation "measure (\<lambda>(buf, buf_size, pos, os). length (reads os))")
     (auto dest: sys_read_shorter)

declare drain_unstored.simps [simp del] drain_full.simps [simp del] read_stored.simps [simp del]

definition read_all_available ::
  "char list option \<Rightarrow> nat \<Rightarrow> os_state \<Rightarrow> (char list option \<times> os_state) option" where
  "read_all_available buf buf_size os =
     (if buf = None \<or> buf_size = 0
      then (case drain_unstored os of None \<Rightarrow> None | Some os' \<Rightarrow> Some (buf, os'))
      else (case read_stored (the buf) buf_size 0 os of
              None \<Rightarrow> None
            | Some (b, pos, os') \<Rightarrow> Some (Some (b[pos := NUL]), os')))"

text \<open>
  \<open>kill_child\<close>: SIGTERM, a sleep of 100 ms in \<open>select\<close>, a non-blocking \<open>waitpid\<close>,
  and SIGKILL with a blocking \<open>waitpid\<close> when the child is still there.
\<close>

definition kill_child :: "os_state \<Rightarrow> os_state option" where
  "kill_child os =
     (let os1 = sys (SYS_select False 0 100000) (sys (SYS_kill SIGTERM) os)
      in case sys_waitpid True os1 of
           None \<Rightarrow> None
         | Some (result, st, os2) \<Rightarrow>
             if result = 0
             then (case sys_waitpid False (sys (SYS_kill SIGKILL) os2) of
                     None \<Rightarrow> None
                   | Some (r, st', os3) \<Rightarrow> Some os3)
             else Some os2)"

text \<open>The \<open>do ... while (waited < 0 && errno == EINTR)\<close> loop around \<open>waitpid\<close>.\<close>

function wait_for_child :: "os_state \<Rightarrow> (int \<times> wstatus \<times> os_state) option" where
  "wait_for_child os =
     (case sys_waitpid False os of
        None \<Rightarrow> None
      | Some (waited, st, os') \<Rightarrow>
          if waited < 0 \<and> errno os' = EINTR then wait_for_child os' else Some (waited, st, os'))"
  by pat_completeness auto
termination
  by (relation "measure (\<lambda>os. length (waits os))") (auto dest: sys_waitpid_shorter)

declare wait_for_child.simps [simp del]

text \<open>The loop that removes trailing newlines and carriage returns from the C string.\<close>

definition trim_newlines :: "char list \<Rightarrow> char list" where
  "trim_newlines output =
     (let s = c_str output;
          kept = rev (dropWhile (\<lambda>c. c = LF \<or> c = CR) (rev s))
      in kept @ replicate (length s - length kept) NUL @ drop (length s) output)"

text \<open>
  \<open>git_command_with_timeout\<close> is modelled in three parts, in the order of the source:
  the wait on the pipe, the collection of the output with the final \<open>waitpid\<close>, and
  the function itself.  Each gives how the call ends, the output array and the final
  state.  In the child the redirection of \<open>stderr\<close> is left out; it does not change
  how the call ends.

  The \<open>select\<close> on the read end of the pipe with the timeout split into seconds and
  microseconds: the value of \<open>ready\<close> and the state with \<open>errno\<close> set on failure.
\<close>

definition wait_for_output :: "32 word \<Rightarrow> os_state \<Rightarrow> int \<times> os_state" where
  "wait_for_output timeout_ms os =
     (let tv_sec = uint (timeout_ms div 1000);
          tv_usec = uint ((timeout_ms mod 1000) * 1000);
          os1 = sys (SYS_select True tv_sec tv_usec) os;
          ready = select_ret os1
      in (ready, if ready < 0 then os1\<lparr>errno := select_errno os1\<rparr> else os1))"

text \<open>Data available: read it, trim it, wait for the child and take its exit status.\<close>

definition collect_output ::
  "git_cmd_result \<Rightarrow> char list option \<Rightarrow> nat \<Rightarrow> os_state
     \<Rightarrow> run_end \<times> char list option \<times> os_state" where
  "collect_output result output output_size os =
     (case read_all_available output output_size os of
        None \<Rightarrow> (Blocked, output, os)
      | Some (output2, os1) \<Rightarrow>
          (let os2 = sys SYS_close_read os1;
               output3 = (if output2 \<noteq> None \<and> output_size > 0
                          then Some (trim_newlines (the output2))
                          else output2)
           in case wait_for_child os2 of
                None \<Rightarrow> (Blocked, output3, os2)
              | Some (waited, st, os3) \<Rightarrow>
                  (if waited > 0 \<and> WIFEXITED st
                   then Returned (result\<lparr>exit_status := WEXITSTATUS st\<rparr>)
                   else Returned result, output3, os3)))"

definition git_command_with_timeout ::
  "os_state \<Rightarrow> string option \<Rightarrow> char list option \<Rightarrow> nat \<Rightarrow> 32 word
     \<Rightarrow> run_end \<times> char list option \<times> os_state" where
  "git_command_with_timeout os cmd output output_size timeout_ms0 =
     (let result = \<lparr>exit_status = - 1, timed_out = False\<rparr>
      in if cmd = None then (Returned result, output, os)
         else
           (let timeout_ms = (if timeout_ms0 = 0 then GIT_CMD_SYNC_TIMEOUT_MS else timeout_ms0);
                output1 = (if output \<noteq> None \<and> output_size > 0
                           then Some ((the output)[0 := NUL]) else output);
                os1 = sys SYS_pipe os
            in if pipe_ret os1 < 0 then (Returned result, output1, os1)
               else
                 (let os2 = sys SYS_fork os1
                  in if fork_ret os2 < 0
                     then (Returned result, output1, sys SYS_close_write (sys SYS_close_read os2))
                     else if fork_ret os2 = 0
                     then (let os3 = sys SYS_close_read os2
                           in if dup2_ret os3 < 0 then (Child_exits 127, output1, os3)
                              else if execl_fails os3
                              then (Child_exits 127, output1, sys SYS_close_write os3)
                              else (Child_execs, output1, sys SYS_close_write os3))
                     else
                       (let (ready, os5) = wait_for_output timeout_ms (sys SYS_close_write os2)
                        in if ready < 0 \<and> errno os5 \<noteq> EINTR
                           then (case kill_child (sys SYS_close_read os5) of
                                   None \<Rightarrow> (Blocked, output1, os5)
                                 | Some os6 \<Rightarrow> (Returned result, output1, os6))
                           else if ready = 0
                           then (case kill_child (sys SYS_close_read os5) of
                                   None \<Rightarrow> (Blocked, output1, os5)
                                 | Some os6 \<Rightarrow>
                                     (Returned (result\<lparr>timed_out := True\<rparr>), output1, os6))
                           else collect_output result output1 output_size os5))))"

text \<open>
  The \<open>select\<close> calls of a log, and the timeout the runner uses for the one it is
  given: \<open>if (timeout_ms == 0) timeout_ms = GIT_CMD_SYNC_TIMEOUT_MS\<close>.
\<close>

fun selects :: "syscall list \<Rightarrow> (bool \<times> int \<times> int) list" where
  "selects [] = []"
| "selects (SYS_select fd s u # cs) = (fd, s, u) # selects cs"
| "selects (c # cs) = selects cs"

definition effective_timeout :: "32 word \<Rightarrow> 32 word" where
  "effective_timeout t = (if t = 0 then GIT_CMD_SYNC_TIMEOUT_MS else t)"

text \<open>Three answers of the operating system for the concrete instances.\<close>

definition os_timeout :: os_state where
  "os_timeout =
     \<lparr>errno = 0, pipe_ret = 0, fork_ret = 4242, dup2_ret = 1, execl_fails = False,
      select_ret = 0, select_errno = 0, reads = [],
      waits = [(0, 0, WSTOPPED 0), (4242, 0, WSIGNALED 9)], syslog = []\<rparr>"

definition os_pipe_fails :: os_state where
  "os_pipe_fails = os_timeout\<lparr>pipe_ret := - 1\<rparr>"

definition os_fork_fails :: os_state where
  "os_fork_fails = os_timeout\<lparr>fork_ret := - 1\<rparr>"

subsection \<open>Results of the runner\<close>

lemma sys_fields [simp]:
  "errno (sys c os) = errno os" "pipe_ret (sys c os) = pipe_ret os"
  "fork_ret (sys c os) = fork_ret os" "dup2_ret (sys c os) = dup2_ret os"
  "execl_fails (sys c os) = execl_fails os" "select_ret (sys c os) = select_ret os"
  "select_errno (sys c os) = select_errno os" "reads (sys c os) = reads os"
  "waits (sys c os) = waits os" "syslog (sys c os) = syslog os @ [c]"
  by (simp_all add: sys_def)

lemma kill_child_enough:
  "2 \<le> length (waits os) \<Longrightarrow> kill_child os \<noteq> None"
proof -
  assume "2 \<le> length (waits os)"
  then obtain w1 w2 ws where w: "waits os = w1 # w2 # ws"
    by (cases "waits os"; cases "tl (waits os)") auto
  obtain r1 e1 s1 where w1: "w1 = (r1, e1, s1)" by (cases w1)
  obtain r2 e2 s2 where w2: "w2 = (r2, e2, s2)" by (cases w2)
  show ?thesis
    by (simp add: kill_child_def sys_waitpid_def sys_def w w1 w2 Let_def)
qed

text \<open>
  Claim C6.  For a non-NULL command: when \<open>pipe\<close> fails, or \<open>pipe\<close> succeeds and
  \<open>fork\<close> fails, the runner returns \<open>{exit_status = -1, timed_out = false}\<close>.  In the
  parent, when \<open>select\<close> reports zero ready descriptors, the only result the runner
  returns is \<open>{exit_status = -1, timed_out = true}\<close>, and it does return it once the
  two \<open>waitpid\<close> calls of \<open>kill_child\<close> have returned.  No call at all returns
  \<open>timed_out = true\<close> with an exit status other than \<open>-1\<close>.
\<close>

theorem runner_failure_and_timeout_results:
  "(cmd \<noteq> None \<and> pipe_ret os < 0 \<longrightarrow>
      fst (git_command_with_timeout os cmd output output_size timeout_ms) =
        Returned \<lparr>exit_status = - 1, timed_out = False\<rparr>) \<and>
   (cmd \<noteq> None \<and> 0 \<le> pipe_ret os \<and> fork_ret os < 0 \<longrightarrow>
      fst (git_command_with_timeout os cmd output output_size timeout_ms) =
        Returned \<lparr>exit_status = - 1, timed_out = False\<rparr>) \<and>
   (cmd \<noteq> None \<and> 0 \<le> pipe_ret os \<and> 0 < fork_ret os \<and> select_ret os = 0 \<longrightarrow>
      (fst (git_command_with_timeout os cmd output output_size timeout_ms) =
         Returned \<lparr>exit_status = - 1, timed_out = True\<rparr> \<or>
       fst (git_command_with_timeout os cmd output output_size timeout_ms) = Blocked) \<and>
      (2 \<le> length (waits os) \<longrightarrow>
       fst (git_command_with_timeout os cmd output output_size timeout_ms) =
         Returned \<lparr>exit_status = - 1, timed_out = True\<rparr>)) \<and>
   (\<forall>r. fst (git_command_with_timeout os cmd output output_size timeout_ms) = Returned r \<and>
        timed_out r \<longrightarrow> exit_status r = - 1)"
proof (intro conjI impI allI)
  assume "cmd \<noteq> None \<and> pipe_ret os < 0"
  then show "fst (git_command_with_timeout os cmd output output_size timeout_ms) =
        Returned \<lparr>exit_status = - 1, timed_out = False\<rparr>"
    by (simp add: git_command_with_timeout_def Let_def)
next
  assume "cmd \<noteq> None \<and> 0 \<le> pipe_ret os \<and> fork_ret os < 0"
  then show "fst (git_command_with_timeout os cmd output output_size timeout_ms) =
        Returned \<lparr>exit_status = - 1, timed_out = False\<rparr>"
    by (simp add: git_command_with_timeout_def Let_def)
next
  assume a: "cmd \<noteq> None \<and> 0 \<le> pipe_ret os \<and> 0 < fork_ret os \<and> select_ret os = 0"
  then show "fst (git_command_with_timeout os cmd output output_size timeout_ms) =
         Returned \<lparr>exit_status = - 1, timed_out = True\<rparr> \<or>
       fst (git_command_with_timeout os cmd output output_size timeout_ms) = Blocked"
    by (simp add: git_command_with_timeout_def wait_for_output_def Let_def split: option.split)
  {
    assume w: "2 \<le> length (waits os)"
    have k: "kill_child os' \<noteq> None" if "waits os' = waits os" for os'
      using kill_child_enough [of os'] w that by simp
    show "fst (git_command_with_timeout os cmd output output_size timeout_ms) =
         Returned \<lparr>exit_status = - 1, timed_out = True\<rparr>"
      using a
      by (cases "timeout_ms = 0")
         (auto simp: git_command_with_timeout_def wait_for_output_def Let_def k
            split: option.split)
  }
next
  fix r
  assume "fst (git_command_with_timeout os cmd output output_size timeout_ms) = Returned r \<and>
        timed_out r"
  then show "exit_status r = - 1"
    by (auto simp: git_command_with_timeout_def collect_output_def Let_def
        split: if_splits option.splits prod.splits)
qed

theorem runner_failure_and_timeout_results_witness:
  "fst (git_command_with_timeout os_pipe_fails (Some ''git status'') None 0 100) =
     Returned \<lparr>exit_status = - 1, timed_out = False\<rparr> \<and>
   fst (git_command_with_timeout os_fork_fails (Some ''git status'') None 0 100) =
     Returned \<lparr>exit_status = - 1, timed_out = False\<rparr> \<and>
   fst (git_command_with_timeout os_timeout (Some ''git status'') None 0 100) =
     Returned \<lparr>exit_status = - 1, timed_out = True\<rparr>"
proof -
  have p: "pipe_ret os_pipe_fails < 0" "0 \<le> pipe_ret os_fork_fails" "fork_ret os_fork_fails < 0"
    "0 \<le> pipe_ret os_timeout" "0 < fork_ret os_timeout" "select_ret os_timeout = 0"
    "2 \<le> length (waits os_timeout)"
    by (simp_all add: os_pipe_fails_def os_fork_fails_def os_timeout_def)
  have 1: "fst (git_command_with_timeout os_pipe_fails (Some ''git status'') None 0 100) =
     Returned \<lparr>exit_status = - 1, timed_out = False\<rparr>"
    using runner_failure_and_timeout_results [of "Some ''git status''" os_pipe_fails None 0 100, THEN conjunct1] p(1)
    by blast
  have 2: "fst (git_command_with_timeout os_fork_fails (Some ''git status'') None 0 100) =
     Returned \<lparr>exit_status = - 1, timed_out = False\<rparr>"
    using runner_failure_and_timeout_results [of "Some ''git status''" os_fork_fails None 0 100, THEN conjunct2, THEN conjunct1]
      p(2,3)
    by blast
  have 3: "fst (git_command_with_timeout os_timeout (Some ''git status'') None 0 100) =
     Returned \<lparr>exit_status = - 1, timed_out = True\<rparr>"
    using runner_failure_and_timeout_results [of "Some ''git status''" os_timeout None 0 100, THEN conjunct2, THEN conjunct2,
        THEN conjunct1] p(4,5,6,7)
    by blast
  from 1 2 3 show ?thesis by blast
qed

subsection \<open>The timeouts passed to \<open>select\<close>\<close>

lemma selects_append [simp]: "selects (xs @ ys) = selects xs @ selects ys"
  by (induction xs rule: selects.induct) simp_all

lemma sys_read_selects:
  "sys_read k os = Some (n, d, os') \<Longrightarrow> selects (syslog os') = selects (syslog os)"
  by (auto simp: sys_read_def split: list.splits sum.splits)

lemma sys_waitpid_selects:
  "sys_waitpid h os = Some (r, st, os') \<Longrightarrow> selects (syslog os') = selects (syslog os)"
  by (auto simp: sys_waitpid_def split: list.splits)

lemma drain_unstored_selects:
  "drain_unstored os = Some os' \<Longrightarrow> selects (syslog os') = selects (syslog os)"
proof (induction os rule: drain_unstored.induct)
  case (1 os)
  from "1.prems" obtain n d os1 where r: "sys_read 256 os = Some (n, d, os1)"
    by (subst (asm) drain_unstored.simps) (auto split: option.splits)
  show ?case
    using "1.prems" "1.IH" [OF r refl refl] r sys_read_selects [OF r]
    by (subst (asm) drain_unstored.simps) (auto split: if_splits)
qed

lemma drain_full_selects:
  "drain_full os = Some os' \<Longrightarrow> selects (syslog os') = selects (syslog os)"
proof (induction os rule: drain_full.induct)
  case (1 os)
  from "1.prems" obtain n d os1 where r: "sys_read 256 os = Some (n, d, os1)"
    by (subst (asm) drain_full.simps) (auto split: option.splits)
  show ?case
    using "1.prems" "1.IH" [OF r refl refl] r sys_read_selects [OF r]
    by (subst (asm) drain_full.simps) (auto split: if_splits)
qed

lemma read_stored_selects:
  "read_stored buf sz pos os = Some (b, p, os') \<Longrightarrow> selects (syslog os') = selects (syslog os)"
proof (induction buf sz pos os rule: read_stored.induct)
  case (1 buf sz pos os)
  show ?case
  proof (cases "sz - 1 - pos = 0")
    case True
    then show ?thesis
      using "1.prems"
      by (subst (asm) read_stored.simps) (auto split: option.splits dest: drain_full_selects)
  next
    case False
    from "1.prems" False obtain n d os1 where r: "sys_read (sz - 1 - pos) os = Some (n, d, os1)"
      by (subst (asm) read_stored.simps) (auto simp: Let_def split: option.splits)
    show ?thesis
      using "1.prems" False r sys_read_selects [OF r]
        "1.IH"(1) [OF refl False r refl refl]
        "1.IH"(2) [OF refl False r refl refl]
      by (subst (asm) read_stored.simps) (auto simp: Let_def split: if_splits)
  qed
qed

lemma wait_for_child_selects:
  "wait_for_child os = Some (w, st, os') \<Longrightarrow> selects (syslog os') = selects (syslog os)"
proof (induction os rule: wait_for_child.induct)
  case (1 os)
  from "1.prems" obtain r s os1 where r: "sys_waitpid False os = Some (r, s, os1)"
    by (subst (asm) wait_for_child.simps) (auto split: option.splits)
  show ?case
    using "1.prems" "1.IH" [OF r refl refl] r sys_waitpid_selects [OF r]
    by (subst (asm) wait_for_child.simps) (auto split: if_splits)
qed

lemma read_all_available_selects:
  "read_all_available buf sz os = Some (b, os') \<Longrightarrow> selects (syslog os') = selects (syslog os)"
  by (auto simp: read_all_available_def split: if_splits option.splits
      dest: drain_unstored_selects read_stored_selects)

lemma kill_child_selects:
  "kill_child os = Some os' \<Longrightarrow>
   selects (syslog os') = selects (syslog os) @ [(False, 0, 100000)]"
  by (auto simp: kill_child_def Let_def split: option.splits if_splits
      dest!: sys_waitpid_selects)

lemma tv_sec_uint: "uint ((t :: 32 word) div 1000) = uint t div 1000"
  by (simp add: uint_div)

lemma tv_usec_uint: "uint ((t :: 32 word) mod 1000 * 1000) = uint t mod 1000 * 1000"
proof -
  have "uint (t mod 1000 * 1000) = (uint (t mod 1000) * 1000) mod 2 ^ 32"
    by (simp add: uint_word_ariths)
  also have "uint (t mod 1000) = uint t mod 1000"
    by (simp add: uint_mod)
  also have "(uint t mod 1000 * 1000) mod 2 ^ 32 = uint t mod 1000 * 1000"
  proof (rule mod_pos_pos_trivial)
    show "0 \<le> uint t mod 1000 * 1000" by simp
    have "uint t mod 1000 < 1000" by simp
    then show "uint t mod 1000 * 1000 < 2 ^ 32" by simp
  qed
  finally show ?thesis .
qed

lemma tv_nonzero:
  "(t :: 32 word) \<noteq> 0 \<Longrightarrow> uint (t div 1000) \<noteq> 0 \<or> uint (t mod 1000 * 1000) \<noteq> 0"
proof -
  assume "t \<noteq> 0"
  then have "uint t \<noteq> 0" by (simp add: uint_0_iff)
  then have "uint t div 1000 \<noteq> 0 \<or> uint t mod 1000 * 1000 \<noteq> 0"
    using div_mult_mod_eq [of "uint t" 1000] by auto
  then show ?thesis by (simp only: tv_sec_uint tv_usec_uint)
qed

lemma effective_timeout_nonzero: "effective_timeout t \<noteq> 0"
  by (simp add: effective_timeout_def GIT_CMD_SYNC_TIMEOUT_MS_def)

lemma wait_for_output_selects:
  "selects (syslog (snd (wait_for_output tm os))) =
     selects (syslog os) @ [(True, uint (tm div 1000), uint (tm mod 1000 * 1000))]"
  by (simp add: wait_for_output_def Let_def)

lemma collect_output_selects:
  "selects (syslog (snd (snd (collect_output result out n os)))) = selects (syslog os)"
proof (cases "read_all_available out n os")
  case None
  then show ?thesis by (simp add: collect_output_def)
next
  case (Some a)
  obtain out2 os1 where a: "a = (out2, os1)" by (cases a)
  note r = read_all_available_selects [OF Some [unfolded a]]
  show ?thesis
  proof (cases "wait_for_child (sys SYS_close_read os1)")
    case None
    then show ?thesis
      using Some a r by (simp add: collect_output_def Let_def)
  next
    case (Some w)
    obtain waited st os3 where w: "w = (waited, st, os3)" by (cases w)
    from wait_for_child_selects [OF Some [unfolded w]] have "selects (syslog os3) = selects (syslog os1)"
      by simp
    then show ?thesis
      using \<open>read_all_available out n os = Some a\<close> a r Some w
      by (simp add: collect_output_def Let_def)
  qed
qed

text \<open>
  Claim C10.  \<open>selects\<close> lists the \<open>select\<close> calls of a log: whether the pipe is
  waited on, and the seconds and microseconds of the timeout.  In the parent the
  runner waits on the pipe exactly once, with the timeout that \<open>effective_timeout\<close>
  gives: 3000 ms, that is \<open>{3, 0}\<close>, for \<open>timeout_ms = 0\<close>, and \<open>timeout_ms\<close>
  itself otherwise; this timeout is never \<open>{0, 0}\<close>.  The only other \<open>select\<close> is
  the 100 ms sleep of \<open>kill_child\<close>, and a call that does not reach the parent
  branch makes none.
\<close>

theorem runner_zero_timeout_default:
  "(cmd \<noteq> None \<and> 0 \<le> pipe_ret os \<and> 0 < fork_ret os \<longrightarrow>
      (\<exists>rest. selects (syslog (snd (snd (git_command_with_timeout os cmd output output_size t)))) =
                selects (syslog os) @
                (True, uint (effective_timeout t div 1000),
                       uint (effective_timeout t mod 1000 * 1000)) # rest \<and>
              (rest = [] \<or> rest = [(False, 0, 100000)]))) \<and>
   (cmd = None \<or> pipe_ret os < 0 \<or> fork_ret os \<le> 0 \<longrightarrow>
      selects (syslog (snd (snd (git_command_with_timeout os cmd output output_size t)))) =
        selects (syslog os)) \<and>
   (uint (effective_timeout t div 1000), uint (effective_timeout t mod 1000 * 1000)) \<noteq> (0, 0) \<and>
   (t = 0 \<longrightarrow>
      uint (effective_timeout t div 1000) = 3 \<and> uint (effective_timeout t mod 1000 * 1000) = 0)"
proof (intro conjI impI)
  assume a: "cmd \<noteq> None \<and> 0 \<le> pipe_ret os \<and> 0 < fork_ret os"
  let ?os3 = "sys SYS_close_write (sys SYS_fork (sys SYS_pipe os))"
  let ?w = "wait_for_output (effective_timeout t) ?os3"
  from a have c: "(cmd = None) = False" "(pipe_ret os < 0) = False"
    "(fork_ret os < 0) = False" "(fork_ret os = 0) = False"
    by auto
  have e: "(if t = 0 then GIT_CMD_SYNC_TIMEOUT_MS else t) = effective_timeout t"
    by (simp add: effective_timeout_def)
  have sw: "selects (syslog (snd ?w)) = selects (syslog os) @
      [(True, uint (effective_timeout t div 1000), uint (effective_timeout t mod 1000 * 1000))]"
    by (simp add: wait_for_output_selects)
  show "\<exists>rest. selects (syslog (snd (snd (git_command_with_timeout os cmd output output_size t)))) =
                selects (syslog os) @
                (True, uint (effective_timeout t div 1000),
                       uint (effective_timeout t mod 1000 * 1000)) # rest \<and>
              (rest = [] \<or> rest = [(False, 0, 100000)])"
  proof (cases "kill_child (sys SYS_close_read (snd ?w))")
    case None
    show ?thesis
      by (simp add: git_command_with_timeout_def Let_def split_beta c e None sw
          collect_output_selects)
  next
    case (Some os6)
    have "selects (syslog os6) = selects (syslog (snd ?w)) @ [(False, 0, 100000)]"
      using kill_child_selects [OF Some] by simp
    then show ?thesis
      by (simp add: git_command_with_timeout_def Let_def split_beta c e Some sw
          collect_output_selects)
  qed
next
  assume "cmd = None \<or> pipe_ret os < 0 \<or> fork_ret os \<le> 0"
  then show "selects (syslog (snd (snd (git_command_with_timeout os cmd output output_size t)))) =
        selects (syslog os)"
    by (auto simp: git_command_with_timeout_def Let_def)
next
  show "(uint (effective_timeout t div 1000), uint (effective_timeout t mod 1000 * 1000)) \<noteq> (0, 0)"
    using tv_nonzero [OF effective_timeout_nonzero [of t]] by auto
next
  assume "t = 0"
  then show "uint (effective_timeout t div 1000) = 3"
    by (simp add: effective_timeout_def GIT_CMD_SYNC_TIMEOUT_MS_def)
next
  assume "t = 0"
  then show "uint (effective_timeout t mod 1000 * 1000) = 0"
    by (simp add: effective_timeout_def GIT_CMD_SYNC_TIMEOUT_MS_def)
qed

theorem runner_zero_timeout_default_witness:
  "\<exists>rest. selects (syslog (snd (snd
            (git_command_with_timeout os_timeout (Some ''git status'') None 0 0)))) =
          (True, 3, 0) # rest"
proof -
  have p: "0 \<le> pipe_ret os_timeout" "0 < fork_ret os_timeout" "selects (syslog os_timeout) = []"
    by (simp_all add: os_timeout_def)
  note t = runner_zero_timeout_default [of "Some ''git status''" os_timeout None 0 0]
  from t have z: "uint (effective_timeout 0 div 1000) = 3"
    "uint (effective_timeout 0 mod 1000 * 1000) = 0"
    by blast+
  from t p(1,2) obtain rest where
    "selects (syslog (snd (snd (git_command_with_timeout os_timeout (Some ''git status'') None
        0 0)))) =
     selects (syslog os_timeout) @
       (True, uint (effective_timeout 0 div 1000), uint (effective_timeout 0 mod 1000 * 1000)) #
       rest"
    by blast
  then show ?thesis
    by (simp only: z p(3) append_Nil) blast
qed

section \<open>The async worker (async_worker.c)\<close>

text \<open>
  Requests are heap objects linked through their \<open>next\<close> field, so the model has an
  explicit store: a request is named by its address, and the worker holds the addresses
  of the head and the tail of its queue.  async_worker.h is not part of the sources at
  hand: \<open>LLE_ASYNC_MAX_QUEUE_SIZE\<close> is a parameter of the model, the three statistics
  counters are 64-bit as \<open>lle_async_worker_get_stats\<close> returns them, and so are the
  request id and the queue size (\<open>size_t\<close>).  Everything below that touches the queue
  runs with the queue mutex held in the source and is one atomic step here.
\<close>

type_synonym addr = nat

datatype lle_async_request_type = LLE_ASYNC_GIT_STATUS | LLE_ASYNC_CUSTOM

record lle_async_request =
  req_id :: "64 word"
  req_type :: lle_async_request_type
  req_timeout_ms :: "32 word"
  req_cwd :: string
  req_next :: "addr option"

record lle_async_worker =
  running :: bool
  shutdown_requested :: bool
  next_request_id :: "64 word"
  queue_head :: "addr option"
  queue_tail :: "addr option"
  queue_size :: "64 word"
  total_requests :: "64 word"
  total_completed :: "64 word"
  total_timeouts :: "64 word"

text \<open>
  Where the worker thread stands in its loop: not created, at the top of the loop
  (waiting for work), holding a dequeued request that it is processing, holding a
  request already counted as completed (callback and \<open>free\<close> still to come), or
  returned.
\<close>

datatype thread_pc = Not_started | Waiting | Processing addr | Notifying addr | Exited

record async_state =
  worker :: lle_async_worker
  heap :: "addr \<Rightarrow> lle_async_request option"
  thread :: thread_pc

text \<open>\<open>lle_async_worker_init\<close>, for successful allocation and mutex creation.\<close>

definition lle_async_worker_init :: async_state where
  "lle_async_worker_init =
     \<lparr>worker = \<lparr>running = False, shutdown_requested = False, next_request_id = 1,
                 queue_head = None, queue_tail = None, queue_size = 0,
                 total_requests = 0, total_completed = 0, total_timeouts = 0\<rparr>,
      heap = (\<lambda>a. None), thread = Not_started\<rparr>"

text \<open>\<open>lle_async_worker_start\<close>; \<open>created\<close> tells whether \<open>pthread_create\<close> succeeds.\<close>

definition lle_async_worker_start :: "bool \<Rightarrow> async_state \<Rightarrow> lle_result \<times> async_state" where
  "lle_async_worker_start created s =
     (if running (worker s) then (LLE_ERROR_INVALID_PARAMETER, s)
      else if created
      then (LLE_SUCCESS,
            s\<lparr>worker := (worker s)\<lparr>running := True, shutdown_requested := False\<rparr>,
              thread := Waiting\<rparr>)
      else (LLE_ERROR_SYSTEM_CALL,
            s\<lparr>worker := (worker s)\<lparr>running := False, shutdown_requested := False\<rparr>\<rparr>))"

definition lle_async_worker_shutdown :: "async_state \<Rightarrow> lle_result \<times> async_state" where
  "lle_async_worker_shutdown s =
     (LLE_SUCCESS, s\<lparr>worker := (worker s)\<lparr>shutdown_requested := True\<rparr>\<rparr>)"

text \<open>
  \<open>lle_async_worker_wait\<close>: \<open>pthread_join\<close> returns once the thread has left its
  loop (\<open>None\<close>: still joining), and then \<open>running\<close> is cleared.
\<close>

definition lle_async_worker_wait :: "async_state \<Rightarrow> (lle_result \<times> async_state) option" where
  "lle_async_worker_wait s =
     (if running (worker s)
      then (if thread s = Exited \<or> thread s = Not_started
            then Some (LLE_SUCCESS, s\<lparr>worker := (worker s)\<lparr>running := False\<rparr>\<rparr>)
            else None)
      else Some (LLE_SUCCESS, s))"

text \<open>\<open>lle_async_request_create\<close> at a free address \<open>a\<close> (\<open>calloc\<close> succeeded).\<close>

definition lle_async_request_create ::
  "32 word \<Rightarrow> lle_async_request_type \<Rightarrow> addr \<Rightarrow> async_state \<Rightarrow> async_state" where
  "lle_async_request_create default_timeout ty a s =
     s\<lparr>heap := (heap s)(a \<mapsto> \<lparr>req_id = 0, req_type = ty, req_timeout_ms = default_timeout,
                                req_cwd = [], req_next = None\<rparr>)\<rparr>"

text \<open>
  \<open>lle_async_worker_submit\<close>.  \<open>worker_null\<close> stands for a NULL worker pointer and
  \<open>request = None\<close> for a NULL request; a non-NULL request points to an allocated
  object.  The tail's \<open>next\<close> field is written before the tail pointer moves.
\<close>

definition lle_async_worker_submit ::
  "64 word \<Rightarrow> bool \<Rightarrow> async_state \<Rightarrow> addr option \<Rightarrow> lle_result \<times> async_state" where
  "lle_async_worker_submit LLE_ASYNC_MAX_QUEUE_SIZE worker_null s request =
     (if worker_null \<or> request = None then (LLE_ERROR_INVALID_PARAMETER, s)
      else if \<not> running (worker s) \<or> shutdown_requested (worker s)
      then (LLE_ERROR_INVALID_STATE, s)
      else if queue_size (worker s) \<ge> LLE_ASYNC_MAX_QUEUE_SIZE
      then (LLE_ERROR_RESOURCE_EXHAUSTED, s)
      else
        (let a = the request;
             w = worker s;
             h1 = (heap s)(a := map_option
                     (\<lambda>r. r\<lparr>req_id := next_request_id w, req_next := None\<rparr>) (heap s a));
             h2 = (case queue_tail w of
                     Some t \<Rightarrow> h1(t := map_option (\<lambda>r. r\<lparr>req_next := Some a\<rparr>) (h1 t))
                   | None \<Rightarrow> h1);
             w1 = w\<lparr>next_request_id := next_request_id w + 1,
                    queue_head := (case queue_tail w of Some t \<Rightarrow> queue_head w | None \<Rightarrow> Some a),
                    queue_tail := Some a,
                    queue_size := queue_size w + 1,
                    total_requests := total_requests w + 1\<rparr>
         in (LLE_SUCCESS, s\<lparr>worker := w1, heap := h2\<rparr>)))"

text \<open>
  The worker thread at the top of its loop, holding the mutex after the wait.  With
  an empty queue and no shutdown request it keeps waiting (\<open>None\<close>: no step); with an
  empty queue after a shutdown request it leaves the loop; otherwise it takes the head.
\<close>

definition thread_dequeue :: "async_state \<Rightarrow> async_state option" where
  "thread_dequeue s =
     (let w = worker s
      in if thread s \<noteq> Waiting then None
         else if queue_head w = None \<and> \<not> shutdown_requested w then None
         else if shutdown_requested w \<and> queue_head w = None then Some (s\<lparr>thread := Exited\<rparr>)
         else
           (case queue_head w of
              Some a \<Rightarrow>
                (let nxt = (case heap s a of Some r \<Rightarrow> req_next r | None \<Rightarrow> None)
                 in Some (s\<lparr>worker := w\<lparr>queue_head := nxt,
                                          queue_tail := (if nxt = None then None else queue_tail w),
                                          queue_size := queue_size w - 1\<rparr>,
                            thread := Processing a\<rparr>))
            | None \<Rightarrow> Some s))"

text \<open>After the dispatch on the request type: \<open>total_completed++\<close> under the mutex.\<close>

definition thread_complete :: "async_state \<Rightarrow> async_state option" where
  "thread_complete s =
     (case thread s of
        Processing a \<Rightarrow>
          Some (s\<lparr>worker := (worker s)\<lparr>total_completed := total_completed (worker s) + 1\<rparr>,
                  thread := Notifying a\<rparr>)
      | _ \<Rightarrow> None)"

text \<open>The completion callback has run: \<open>free(request)\<close>, back to the top of the loop.\<close>

definition thread_free :: "async_state \<Rightarrow> async_state option" where
  "thread_free s =
     (case thread s of
        Notifying a \<Rightarrow> Some (s\<lparr>heap := (heap s)(a := None), thread := Waiting\<rparr>)
      | _ \<Rightarrow> None)"

text \<open>
  The states a worker can reach from \<open>lle_async_worker_init\<close>, each with the list of
  the ids handed out by the successful submits so far, oldest first.
\<close>

inductive reach :: "64 word \<Rightarrow> async_state \<Rightarrow> 64 word list \<Rightarrow> bool" for M :: "64 word" where
  reach_init: "reach M lle_async_worker_init []"
| reach_start: "reach M s ids \<Longrightarrow> reach M (snd (lle_async_worker_start created s)) ids"
| reach_shutdown: "reach M s ids \<Longrightarrow> reach M (snd (lle_async_worker_shutdown s)) ids"
| reach_wait: "reach M s ids \<Longrightarrow> lle_async_worker_wait s = Some (r, s') \<Longrightarrow> reach M s' ids"
| reach_create:
    "reach M s ids \<Longrightarrow> heap s a = None \<Longrightarrow>
     reach M (lle_async_request_create tm ty a s) ids"
| reach_submit:
    "reach M s ids \<Longrightarrow> heap s a \<noteq> None \<Longrightarrow>
     lle_async_worker_submit M False s (Some a) = (LLE_SUCCESS, s') \<Longrightarrow>
     reach M s' (ids @ [req_id (the (heap s' a))])"
| reach_submit_rejected:
    "reach M s ids \<Longrightarrow> lle_async_worker_submit M wn s req = (r, s') \<Longrightarrow> r \<noteq> LLE_SUCCESS \<Longrightarrow>
     reach M s' ids"
| reach_dequeue: "reach M s ids \<Longrightarrow> thread_dequeue s = Some s' \<Longrightarrow> reach M s' ids"
| reach_complete: "reach M s ids \<Longrightarrow> thread_complete s = Some s' \<Longrightarrow> reach M s' ids"
| reach_free: "reach M s ids \<Longrightarrow> thread_free s = Some s' \<Longrightarrow> reach M s' ids"

text \<open>The number of requests dequeued and not yet counted as completed: 0 or 1.\<close>

definition in_flight :: "async_state \<Rightarrow> 64 word" where
  "in_flight s = (case thread s of Processing a \<Rightarrow> 1 | _ \<Rightarrow> 0)"

text \<open>
  \<open>is_queue h p xs\<close>: following \<open>next\<close> from the pointer \<open>p\<close> visits exactly the
  addresses \<open>xs\<close> and ends at NULL.  \<open>wf_queue s xs\<close>: the worker's queue holds \<open>xs\<close>,
  each request once, with the tail pointer at the last and the size counter right.
\<close>

fun is_queue :: "(addr \<Rightarrow> lle_async_request option) \<Rightarrow> addr option \<Rightarrow> addr list \<Rightarrow> bool" where
  "is_queue h p [] = (p = None)"
| "is_queue h p (a # as) =
     (p = Some a \<and> (case h a of Some r \<Rightarrow> is_queue h (req_next r) as | None \<Rightarrow> False))"

definition wf_queue :: "async_state \<Rightarrow> addr list \<Rightarrow> bool" where
  "wf_queue s xs \<longleftrightarrow>
     is_queue (heap s) (queue_head (worker s)) xs \<and> distinct xs \<and>
     queue_tail (worker s) = (if xs = [] then None else Some (last xs)) \<and>
     queue_size (worker s) = of_nat (length xs)"

subsection \<open>The accounting invariant\<close>

definition accounted :: "async_state \<Rightarrow> bool" where
  "accounted s \<longleftrightarrow>
     total_completed (worker s) + queue_size (worker s) + in_flight s = total_requests (worker s)"

definition thread_idle_unless_running :: "async_state \<Rightarrow> bool" where
  "thread_idle_unless_running s \<longleftrightarrow>
     (\<not> running (worker s) \<longrightarrow> thread s = Not_started \<or> thread s = Exited)"

lemma reach_invariant:
  "reach M s ids \<Longrightarrow> accounted s \<and> thread_idle_unless_running s"
proof (induction rule: reach.induct)
  case reach_init
  show ?case
    by (simp add: accounted_def thread_idle_unless_running_def lle_async_worker_init_def
        in_flight_def)
next
  case (reach_start s ids created)
  then show ?case
    by (auto simp: accounted_def thread_idle_unless_running_def lle_async_worker_start_def
        in_flight_def)
next
  case (reach_shutdown s ids)
  then show ?case
    by (simp add: accounted_def thread_idle_unless_running_def lle_async_worker_shutdown_def
        in_flight_def)
next
  case (reach_wait s ids r s')
  then show ?case
    by (auto simp: accounted_def thread_idle_unless_running_def lle_async_worker_wait_def
        in_flight_def split: if_splits)
next
  case (reach_create s ids a tm ty)
  then show ?case
    by (simp add: accounted_def thread_idle_unless_running_def lle_async_request_create_def
        in_flight_def)
next
  case (reach_submit s ids a s')
  then show ?case
    by (auto simp: accounted_def thread_idle_unless_running_def lle_async_worker_submit_def
        in_flight_def Let_def ac_simps split: if_splits)
next
  case (reach_submit_rejected s ids wn req r s')
  then show ?case
    by (auto simp: accounted_def thread_idle_unless_running_def lle_async_worker_submit_def
        in_flight_def Let_def ac_simps split: if_splits)
next
  case (reach_dequeue s ids s')
  then show ?case
    by (auto simp: accounted_def thread_idle_unless_running_def thread_dequeue_def
        in_flight_def Let_def ac_simps split: if_splits option.splits)
next
  case (reach_complete s ids s')
  then show ?case
    by (auto simp: accounted_def thread_idle_unless_running_def thread_complete_def
        in_flight_def ac_simps split: thread_pc.splits)
next
  case (reach_free s ids s')
  then show ?case
    by (auto simp: accounted_def thread_idle_unless_running_def thread_free_def
        in_flight_def ac_simps split: thread_pc.splits)
qed

subsection \<open>Submitting a request\<close>

lemma is_queue_unchanged:
  "is_queue h p xs \<Longrightarrow> \<forall>x\<in>set xs. map_option req_next (h' x) = map_option req_next (h x) \<Longrightarrow>
   is_queue h' p xs"
proof (induction xs arbitrary: p)
  case Nil
  then show ?case by simp
next
  case (Cons x xs)
  from Cons.prems obtain r where r: "p = Some x" "h x = Some r" "is_queue h (req_next r) xs"
    by (auto split: option.splits)
  from Cons.prems(2) r(2) obtain r' where r': "h' x = Some r'" "req_next r' = req_next r"
    by (cases "h' x") auto
  from Cons.IH [OF r(3)] Cons.prems(2) have "is_queue h' (req_next r) xs" by simp
  with r r' show ?case by simp
qed

lemma is_queue_snoc:
  assumes "is_queue h p xs" and "xs \<noteq> []" and "distinct xs" and "a \<notin> set xs"
    and "h' a = Some ra" and "req_next ra = None"
    and "\<forall>x\<in>set (butlast xs). h' x = h x"
    and "h' (last xs) = map_option (\<lambda>r. r\<lparr>req_next := Some a\<rparr>) (h (last xs))"
  shows "is_queue h' p (xs @ [a])"
  using assms
proof (induction xs arbitrary: p)
  case Nil
  then show ?case by simp
next
  case (Cons x xs)
  from Cons.prems(1) obtain r where r: "p = Some x" "h x = Some r" "is_queue h (req_next r) xs"
    by (auto split: option.splits)
  show ?case
  proof (cases "xs = []")
    case True
    with r Cons.prems show ?thesis by simp
  next
    case False
    with Cons.prems have x: "h' x = h x" by simp
    from False Cons.prems have "is_queue h' (req_next r) (xs @ [a])"
      by (intro Cons.IH [OF r(3)]) auto
    with r x show ?thesis by simp
  qed
qed

lemma submit_appends:
  assumes q: "wf_queue s xs" and a: "a \<notin> set xs" "heap s a \<noteq> None"
    and s: "lle_async_worker_submit M False s (Some a) = (LLE_SUCCESS, s')"
  shows "wf_queue s' (xs @ [a])"
proof -
  from a obtain r where r: "heap s a = Some r" by auto
  from s have ok: "running (worker s)" "\<not> shutdown_requested (worker s)" "\<not> M \<le> queue_size (worker s)"
    by (auto simp: lle_async_worker_submit_def split: if_splits)
  show ?thesis
  proof (cases "xs = []")
    case True
    with q have "queue_tail (worker s) = None" by (simp add: wf_queue_def)
    with s ok r True q show ?thesis
      by (auto simp: lle_async_worker_submit_def wf_queue_def Let_def)
  next
    case False
    with q have t: "queue_tail (worker s) = Some (last xs)" by (simp add: wf_queue_def)
    from False a have ne: "last xs \<noteq> a" using last_in_set by metis
    define h' where "h' = (heap s)
        (a \<mapsto> r\<lparr>req_id := next_request_id (worker s), req_next := None\<rparr>,
         last xs := map_option (\<lambda>r. r\<lparr>req_next := Some a\<rparr>) (heap s (last xs)))"
    from s ok r t ne have s': "s' = s\<lparr>worker := (worker s)
          \<lparr>next_request_id := next_request_id (worker s) + 1,
           queue_head := queue_head (worker s), queue_tail := Some a,
           queue_size := queue_size (worker s) + 1,
           total_requests := total_requests (worker s) + 1\<rparr>, heap := h'\<rparr>"
      by (auto simp: lle_async_worker_submit_def Let_def h'_def)
    from q have iq: "is_queue (heap s) (queue_head (worker s)) xs" and d: "distinct xs"
      and sz: "queue_size (worker s) = of_nat (length xs)"
      by (simp_all add: wf_queue_def)
    have bl: "\<forall>x\<in>set (butlast xs). h' x = heap s x"
    proof
      fix x assume x: "x \<in> set (butlast xs)"
      then have "x \<in> set xs" by (rule in_set_butlastD)
      with a have "x \<noteq> a" by auto
      moreover from x d False have "x \<noteq> last xs"
        by (metis append_butlast_last_id distinct_butlast not_distinct_conv_prefix
            distinct_append disjoint_iff list.set_intros(1))
      ultimately show "h' x = heap s x" by (simp add: h'_def)
    qed
    have "is_queue h' (queue_head (worker s)) (xs @ [a])"
      using iq False d a(1)
    proof (rule is_queue_snoc)
      show "h' a = Some (r\<lparr>req_id := next_request_id (worker s), req_next := None\<rparr>)"
        using ne by (simp add: h'_def)
      show "req_next (r\<lparr>req_id := next_request_id (worker s), req_next := None\<rparr>) = None"
        by simp
      show "\<forall>x\<in>set (butlast xs). h' x = heap s x" by (rule bl)
      show "h' (last xs) = map_option (\<lambda>r. r\<lparr>req_next := Some a\<rparr>) (heap s (last xs))"
        by (simp add: h'_def)
    qed
    with d a sz show ?thesis by (simp add: wf_queue_def s')
  qed
qed

lemma submit_id:
  "heap s a \<noteq> None \<Longrightarrow> lle_async_worker_submit M False s (Some a) = (LLE_SUCCESS, s') \<Longrightarrow>
   map_option req_id (heap s' a) = Some (next_request_id (worker s)) \<and>
   next_request_id (worker s') = next_request_id (worker s) + 1"
  by (auto simp: lle_async_worker_submit_def Let_def split: if_splits option.splits)

text \<open>The ids handed out so far are 1, 2, ... in this order, and the next one follows.\<close>

definition ids_counted :: "async_state \<Rightarrow> 64 word list \<Rightarrow> bool" where
  "ids_counted s ids \<longleftrightarrow>
     next_request_id (worker s) = of_nat (Suc (length ids)) \<and>
     ids = map (\<lambda>k. of_nat (Suc k)) [0..<length ids]"

lemma reach_ids: "reach M s ids \<Longrightarrow> ids_counted s ids"
proof (induction rule: reach.induct)
  case reach_init
  show ?case by (simp add: ids_counted_def lle_async_worker_init_def)
next
  case (reach_start s ids created)
  then show ?case by (simp add: ids_counted_def lle_async_worker_start_def)
next
  case (reach_shutdown s ids)
  then show ?case by (simp add: ids_counted_def lle_async_worker_shutdown_def)
next
  case (reach_wait s ids r s')
  then show ?case
    by (auto simp: ids_counted_def lle_async_worker_wait_def split: if_splits)
next
  case (reach_create s ids a tm ty)
  then show ?case by (simp add: ids_counted_def lle_async_request_create_def)
next
  case (reach_submit s ids a s')
  from submit_id [OF reach_submit(2,3)]
  have "req_id (the (heap s' a)) = next_request_id (worker s)"
    "next_request_id (worker s') = next_request_id (worker s) + 1"
    by (cases "heap s' a"; simp)+
  with reach_submit.IH show ?case by (simp add: ids_counted_def)
next
  case (reach_submit_rejected s ids wn req r s')
  then show ?case
    by (auto simp: ids_counted_def lle_async_worker_submit_def Let_def split: if_splits)
next
  case (reach_dequeue s ids s')
  then show ?case
    by (auto simp: ids_counted_def thread_dequeue_def Let_def split: if_splits option.splits)
next
  case (reach_complete s ids s')
  then show ?case
    by (auto simp: ids_counted_def thread_complete_def split: thread_pc.splits)
next
  case (reach_free s ids s')
  then show ?case
    by (auto simp: ids_counted_def thread_free_def split: thread_pc.splits)
qed

lemma ids_below_next:
  assumes "ids_counted s ids" and "length ids < 2 ^ 64 - 1" and "i \<in> set ids"
  shows "i < next_request_id (worker s)"
proof -
  from assms(1) have "set ids = (\<lambda>k. of_nat (Suc k)) ` {0..<length ids}"
    unfolding ids_counted_def by (metis set_map set_upt)
  with assms(3) obtain k where k: "k < length ids" "i = of_nat (Suc k)"
    by auto
  from assms(1) have n: "next_request_id (worker s) = of_nat (Suc (length ids))"
    by (simp add: ids_counted_def)
  from k(1) assms(2) have "Suc k < Suc (length ids)" "Suc (length ids) < 2 ^ 64" by simp_all
  then have "(of_nat (Suc k) :: 64 word) < of_nat (Suc (length ids))"
    by (simp add: word_less_nat_alt unat_of_nat del: of_nat_Suc)
  with k n show ?thesis by simp
qed

subsection \<open>Example states\<close>

text \<open>
  A worker that has been initialised and owns one request at address 0; the same after
  a successful start; after that request has been submitted (queue bound 2) and a second
  request created at address 1; and after the thread has taken the first request.
\<close>

definition worker_idle :: async_state where
  "worker_idle = lle_async_request_create 1000 LLE_ASYNC_GIT_STATUS 0 lle_async_worker_init"

definition worker_started :: async_state where
  "worker_started = snd (lle_async_worker_start True worker_idle)"

definition worker_one_queued :: async_state where
  "worker_one_queued =
     lle_async_request_create 1000 LLE_ASYNC_GIT_STATUS 1
       (snd (lle_async_worker_submit 2 False worker_started (Some 0)))"

definition worker_one_in_flight :: async_state where
  "worker_one_in_flight = the (thread_dequeue worker_one_queued)"

lemma worker_idle_fields:
  "\<not> running (worker worker_idle)" "heap worker_idle 0 \<noteq> None"
  by (simp_all add: worker_idle_def lle_async_request_create_def lle_async_worker_init_def)

lemma worker_started_fields:
  "running (worker worker_started)" "\<not> shutdown_requested (worker worker_started)"
  "queue_size (worker worker_started) = 0" "heap worker_started 0 \<noteq> None"
  "queue_tail (worker worker_started) = None" "next_request_id (worker worker_started) = 1"
  "heap worker_started 1 = None" "thread worker_started = Waiting"
  "total_requests (worker worker_started) = 0" "total_completed (worker worker_started) = 0"
  by (simp_all add: worker_started_def lle_async_worker_start_def worker_idle_def
      lle_async_request_create_def lle_async_worker_init_def)

lemma worker_started_submit:
  "fst (lle_async_worker_submit 2 False worker_started (Some 0)) = LLE_SUCCESS"
  by (simp add: lle_async_worker_submit_def worker_started_fields Let_def)

lemma worker_one_queued_fields:
  "running (worker worker_one_queued)" "\<not> shutdown_requested (worker worker_one_queued)"
  "queue_size (worker worker_one_queued) = 1" "heap worker_one_queued 1 \<noteq> None"
  "queue_head (worker worker_one_queued) = Some 0"
  "queue_tail (worker worker_one_queued) = Some 0"
  "next_request_id (worker worker_one_queued) = 2"
  "map_option req_next (heap worker_one_queued 0) = Some None"
  "map_option req_id (heap worker_one_queued 0) = Some 1"
  "thread worker_one_queued = Waiting"
  "total_requests (worker worker_one_queued) = 1" "total_completed (worker worker_one_queued) = 0"
  using worker_started_fields(4)
  by (cases "heap worker_started 0";
      simp add: worker_one_queued_def lle_async_worker_submit_def worker_started_fields
        Let_def lle_async_request_create_def)+

lemma reach_worker_started: "reach M worker_started []"
  unfolding worker_started_def worker_idle_def
  by (intro reach_start reach_create reach_init) (simp add: lle_async_worker_init_def)

lemma reach_worker_one_queued: "reach 2 worker_one_queued [1]"
proof -
  obtain s' where s': "lle_async_worker_submit 2 False worker_started (Some 0) = (LLE_SUCCESS, s')"
    using worker_started_submit by (cases "lle_async_worker_submit 2 False worker_started (Some 0)") simp
  from submit_id [OF worker_started_fields(4) s']
  have "req_id (the (heap s' 0)) = 1" by (cases "heap s' 0") (simp_all add: worker_started_fields)
  with reach_submit [OF reach_worker_started worker_started_fields(4) s']
  have r: "reach 2 s' [1]" by simp
  have "heap s' 1 = None"
    using s' worker_started_fields
    by (auto simp: lle_async_worker_submit_def Let_def split: if_splits)
  from reach_create [OF r this] s' show ?thesis by (simp add: worker_one_queued_def)
qed

lemma wf_worker_one_queued: "wf_queue worker_one_queued [0]"
  using worker_one_queued_fields(8)
  by (cases "heap worker_one_queued 0") (simp_all add: wf_queue_def worker_one_queued_fields)

lemma worker_one_in_flight_eq:
  "thread_dequeue worker_one_queued = Some worker_one_in_flight"
  by (simp add: worker_one_in_flight_def thread_dequeue_def Let_def worker_one_queued_fields)

lemma worker_one_in_flight_fields:
  "in_flight worker_one_in_flight = 1" "queue_size (worker worker_one_in_flight) = 0"
  "total_requests (worker worker_one_in_flight) = 1"
  "total_completed (worker worker_one_in_flight) = 0"
  using worker_one_queued_fields(8)
  by (cases "heap worker_one_queued 0";
      simp add: worker_one_in_flight_def thread_dequeue_def Let_def worker_one_queued_fields
        in_flight_def)+

text \<open>
  Claim C7 (submit).  For a non-NULL worker and a non-NULL request: a worker that is not
  running, or whose shutdown has been requested, answers \<open>LLE_ERROR_INVALID_STATE\<close>; a
  running worker whose queue holds \<open>LLE_ASYNC_MAX_QUEUE_SIZE\<close> requests or more answers
  \<open>LLE_ERROR_RESOURCE_EXHAUSTED\<close>; both leave the whole state as it was, so the queue,
  its size and \<open>total_requests\<close> are unchanged.  Otherwise the submit succeeds: the
  request gets the id \<open>next_request_id\<close>, a queue holding the requests \<open>xs\<close> (the
  submitted one not among them) holds \<open>xs\<close> followed by the new request, and in a state
  reached with fewer than \<open>2^64 - 1\<close> ids handed out every earlier id is smaller than
  the new one.
\<close>

theorem submit_results:
  "(\<not> running (worker s) \<or> shutdown_requested (worker s) \<longrightarrow>
      lle_async_worker_submit M False s (Some a) = (LLE_ERROR_INVALID_STATE, s)) \<and>
   (running (worker s) \<and> \<not> shutdown_requested (worker s) \<and> M \<le> queue_size (worker s) \<longrightarrow>
      lle_async_worker_submit M False s (Some a) = (LLE_ERROR_RESOURCE_EXHAUSTED, s)) \<and>
   (running (worker s) \<and> \<not> shutdown_requested (worker s) \<and> queue_size (worker s) < M \<and>
    heap s a \<noteq> None \<longrightarrow>
      (\<exists>s'. lle_async_worker_submit M False s (Some a) = (LLE_SUCCESS, s') \<and>
            map_option req_id (heap s' a) = Some (next_request_id (worker s)) \<and>
            queue_size (worker s') = queue_size (worker s) + 1 \<and>
            total_requests (worker s') = total_requests (worker s) + 1 \<and>
            (\<forall>xs. wf_queue s xs \<and> a \<notin> set xs \<longrightarrow> wf_queue s' (xs @ [a])) \<and>
            (\<forall>ids. reach M s ids \<and> length ids < 2 ^ 64 - 1 \<longrightarrow>
                   (\<forall>i\<in>set ids. i < next_request_id (worker s)))))"
proof (intro conjI impI)
  assume "\<not> running (worker s) \<or> shutdown_requested (worker s)"
  then show "lle_async_worker_submit M False s (Some a) = (LLE_ERROR_INVALID_STATE, s)"
    by (auto simp: lle_async_worker_submit_def)
next
  assume "running (worker s) \<and> \<not> shutdown_requested (worker s) \<and> M \<le> queue_size (worker s)"
  then show "lle_async_worker_submit M False s (Some a) = (LLE_ERROR_RESOURCE_EXHAUSTED, s)"
    by (simp add: lle_async_worker_submit_def)
next
  assume h: "running (worker s) \<and> \<not> shutdown_requested (worker s) \<and> queue_size (worker s) < M \<and>
    heap s a \<noteq> None"
  then have "\<not> M \<le> queue_size (worker s)" by (simp add: not_le)
  with h obtain s' where s': "lle_async_worker_submit M False s (Some a) = (LLE_SUCCESS, s')"
    by (simp add: lle_async_worker_submit_def Let_def)
  from h have a: "heap s a \<noteq> None" by simp
  have 1: "map_option req_id (heap s' a) = Some (next_request_id (worker s))"
    using submit_id [OF a s'] by simp
  have 2: "queue_size (worker s') = queue_size (worker s) + 1"
    "total_requests (worker s') = total_requests (worker s) + 1"
    using s' by (auto simp: lle_async_worker_submit_def Let_def split: if_splits)
  have 3: "\<forall>xs. wf_queue s xs \<and> a \<notin> set xs \<longrightarrow> wf_queue s' (xs @ [a])"
    using submit_appends [OF _ _ a s'] by blast
  have 4: "\<forall>ids. reach M s ids \<and> length ids < 2 ^ 64 - 1 \<longrightarrow>
                   (\<forall>i\<in>set ids. i < next_request_id (worker s))"
    using ids_below_next reach_ids by blast
  from s' 1 2 3 4
  show "\<exists>s'. lle_async_worker_submit M False s (Some a) = (LLE_SUCCESS, s') \<and>
            map_option req_id (heap s' a) = Some (next_request_id (worker s)) \<and>
            queue_size (worker s') = queue_size (worker s) + 1 \<and>
            total_requests (worker s') = total_requests (worker s) + 1 \<and>
            (\<forall>xs. wf_queue s xs \<and> a \<notin> set xs \<longrightarrow> wf_queue s' (xs @ [a])) \<and>
            (\<forall>ids. reach M s ids \<and> length ids < 2 ^ 64 - 1 \<longrightarrow>
                   (\<forall>i\<in>set ids. i < next_request_id (worker s)))"
    by blast
qed

theorem submit_results_witness:
  "lle_async_worker_submit 2 False worker_idle (Some 0) = (LLE_ERROR_INVALID_STATE, worker_idle) \<and>
   lle_async_worker_submit 1 False worker_one_queued (Some 1) =
     (LLE_ERROR_RESOURCE_EXHAUSTED, worker_one_queued) \<and>
   fst (lle_async_worker_submit 2 False worker_one_queued (Some 1)) = LLE_SUCCESS \<and>
   wf_queue (snd (lle_async_worker_submit 2 False worker_one_queued (Some 1))) [0, 1] \<and>
   map_option req_id (heap (snd (lle_async_worker_submit 2 False worker_one_queued (Some 1))) 1) =
     Some 2 \<and>
   map_option req_id (heap worker_one_queued 0) = Some 1 \<and> (1 :: 64 word) < 2"
proof -
  have 1: "lle_async_worker_submit 2 False worker_idle (Some 0) = (LLE_ERROR_INVALID_STATE, worker_idle)"
    using submit_results [of worker_idle 2 0, THEN conjunct1] worker_idle_fields(1) by blast
  have 2: "lle_async_worker_submit 1 False worker_one_queued (Some 1) =
     (LLE_ERROR_RESOURCE_EXHAUSTED, worker_one_queued)"
    using submit_results [of worker_one_queued 1 1, THEN conjunct2, THEN conjunct1]
      worker_one_queued_fields(1,2,3) by simp
  have p: "running (worker worker_one_queued) \<and> \<not> shutdown_requested (worker worker_one_queued) \<and>
      queue_size (worker worker_one_queued) < 2 \<and> heap worker_one_queued 1 \<noteq> None"
    using worker_one_queued_fields(1,2,3,4) by simp
  from submit_results [of worker_one_queued 2 1, THEN conjunct2, THEN conjunct2, rule_format, OF p]
  obtain s' where s': "lle_async_worker_submit 2 False worker_one_queued (Some 1) = (LLE_SUCCESS, s')"
    and i: "map_option req_id (heap s' 1) = Some (next_request_id (worker worker_one_queued))"
    and q: "\<forall>xs. wf_queue worker_one_queued xs \<and> 1 \<notin> set xs \<longrightarrow> wf_queue s' (xs @ [1])"
    and m: "\<forall>ids. reach 2 worker_one_queued ids \<and> length ids < 2 ^ 64 - 1 \<longrightarrow>
                   (\<forall>i\<in>set ids. i < next_request_id (worker worker_one_queued))"
    by blast
  from q wf_worker_one_queued have 3: "wf_queue s' [0, 1]" by force
  from m reach_worker_one_queued have 4: "(1 :: 64 word) < 2"
    by (force simp: worker_one_queued_fields)
  from 1 2 3 4 s' i show ?thesis by (simp add: worker_one_queued_fields)
qed

text \<open>
  Claim C8 (accounting).  In every state that a worker reaches from
  \<open>lle_async_worker_init\<close> by start, shutdown, wait, request creation, submit
  (accepted or rejected) and the steps of the worker thread (dequeue, count as
  completed, free), \<open>total_completed + queue_size + in_flight = total_requests\<close>, where
  \<open>in_flight\<close> counts the request that the thread has dequeued and not yet counted.
\<close>

theorem accounting_identity:
  "reach M s ids \<Longrightarrow>
   total_completed (worker s) + queue_size (worker s) + in_flight s = total_requests (worker s)"
  using reach_invariant [of M s ids] by (simp add: accounted_def)

theorem accounting_identity_witness:
  "reach 2 worker_one_in_flight [1] \<and> in_flight worker_one_in_flight = 1 \<and>
   total_requests (worker worker_one_in_flight) = 1 \<and>
   total_completed (worker worker_one_in_flight) + queue_size (worker worker_one_in_flight) +
     in_flight worker_one_in_flight = total_requests (worker worker_one_in_flight)"
proof -
  have r: "reach 2 worker_one_in_flight [1]"
    using reach_dequeue [OF reach_worker_one_queued worker_one_in_flight_eq] .
  from accounting_identity [OF r] r show ?thesis
    by (simp add: worker_one_in_flight_fields)
qed

section \<open>The powerline renderer (powerline_renderer.c)\<close>












subsection \<open>The append helpers\<close>








subsection \<open>Stripping ANSI sequences\<close>







subsection \<open>Collecting the visible segments\<close>




subsection \<open>Assembling the output\<close>









datatype lle_powerline_direction = LLE_POWERLINE_LEFT_TO_RIGHT | LLE_POWERLINE_RIGHT_TO_LEFT




subsection \<open>Counting occurrences\<close>





subsection \<open>What the append helpers leave in the buffer\<close>


















subsection \<open>Counting the separator in the assembled bytes\<close>














subsection \<open>The stripped contents hold no NUL\<close>







subsection \<open>The output of a left-to-right render\<close>







subsection \<open>An example prompt\<close>


















end
